theory Spec2Isabelle
  imports Complex_Main "HOL-Library.Word" "HOL-Library.Log_Nat"
begin

section \<open>The flattening kernel: interpolation of curved-detector projections\<close>

text \<open>
  The repository holds one kernel, twice: \<^verbatim>\<open>interp_loop\<close> in
  \<^verbatim>\<open>c_library/interpolate.c\<close> and \<^verbatim>\<open>interpolation_loop\<close> in \<^verbatim>\<open>interpolate.c\<close>.
  Both are a triple \<^verbatim>\<open>for\<close> loop over \<^verbatim>\<open>int\<close> counters that reads a \<^verbatim>\<open>double\<close>
  position, converts its floor to \<^verbatim>\<open>int\<close>, computes two \<^verbatim>\<open>int\<close> offsets and
  stores one \<^verbatim>\<open>float\<close> through the pointer \<^verbatim>\<open>out\<close>.

  The embedding keeps what the C leaves implicit:
  \<^item> \<^verbatim>\<open>int\<close> is a 32-bit word and comparisons are signed. An \<^verbatim>\<open>int\<close> operation that
    overflows is undefined in C; in the model \<open>+\<close>, \<open>-\<close>, \<open>*\<close> wrap around (two's
    complement). The theorems on the result of a call assume volumes of at most
    \<open>2^31 - 1\<close> elements, for which every offset that the kernel computes is the exact
    one and nothing wraps. Beyond that size the model can return where the C code has
    overflowed: on extents \<open>1 x 2 x 2^30\<close> the index
    \<^verbatim>\<open>proj_offset + orig_num_detectors - 1\<close> of a right clamp passes through \<open>2^31\<close>;
  \<^item> \<^verbatim>\<open>float\<close> and \<^verbatim>\<open>double\<close> are IEEE 754 binary32 and binary64 values with
    round-to-nearest, ties-to-even, every operation rounded on its own;
  \<^item> the conversion of a \<^verbatim>\<open>double\<close> to \<^verbatim>\<open>int\<close> is undefined in C when the value
    does not fit (C11 6.3.1.4), which the model reports as a fault;
  \<^item> \<^verbatim>\<open>proj\<close> and \<^verbatim>\<open>out\<close> point into one memory of \<^verbatim>\<open>float\<close> cells, so that they
    may overlap; an access outside the pointed-to buffer is a fault.
\<close>

subsection \<open>IEEE 754 values\<close>

text \<open>
  A floating-point datum is a NaN, an infinity, the negative zero, or a finite rational
  (\<open>Fin 0\<close> is the positive zero). NaN payloads are not modelled.
\<close>

datatype fp = NaN | PInf | NInf | NZero | Fin rat

record format =
  prec :: nat
  emin :: int
  emax :: int

definition binary32 :: format where
  "binary32 = \<lparr>prec = 24, emin = - 126, emax = 127\<rparr>"

definition binary64 :: format where
  "binary64 = \<lparr>prec = 53, emin = - 1022, emax = 1023\<rparr>"

fun fp_val :: "fp \<Rightarrow> rat" where
  "fp_val (Fin q) = q"
| "fp_val _ = 0"

fun is_finite :: "fp \<Rightarrow> bool" where
  "is_finite (Fin q) = True"
| "is_finite NZero = True"
| "is_finite _ = False"

fun signbit :: "fp \<Rightarrow> bool" where
  "signbit (Fin q) = (q < 0)"
| "signbit NZero = True"
| "signbit NInf = True"
| "signbit _ = False"

text \<open>\<open>ilog2 q\<close> is the binary exponent of a non-zero \<open>q\<close>: \<open>2 ^ e \<le> |q| < 2 ^ (e + 1)\<close>.\<close>

definition ilog2 :: "rat \<Rightarrow> int" where
  "ilog2 q =
     (let (a, b) = quotient_of \<bar>q\<bar>;
          d = bitlen a - bitlen b
      in if 2 powi d \<le> \<bar>q\<bar> then d else d - 1)"

text \<open>Rounding a rational to the nearest integer, ties to the even one.\<close>

definition rint_even :: "rat \<Rightarrow> int" where
  "rint_even y =
     (let f = \<lfloor>y\<rfloor>; d = y - of_int f
      in if d < 1 / 2 then f
         else if 1 / 2 < d then f + 1
         else if even f then f else f + 1)"

text \<open>
  The spacing of the format's values around \<open>q\<close> is \<open>2 ^ quantum\<close>; below the smallest
  normal number the spacing stays that of the subnormal numbers.
\<close>

definition quantum :: "format \<Rightarrow> rat \<Rightarrow> int" where
  "quantum fmt q = max (ilog2 q) (emin fmt) - (int (prec fmt) - 1)"

definition fp_round :: "format \<Rightarrow> rat \<Rightarrow> fp" where
  "fp_round fmt q =
     (if q = 0 then Fin 0
      else let u = 2 powi (quantum fmt q);
               r = of_int (rint_even (q / u)) * u
           in if 2 powi (emax fmt + 1) \<le> \<bar>r\<bar> then (if q < 0 then NInf else PInf)
              else if r = 0 then (if q < 0 then NZero else Fin 0)
              else Fin r)"

text \<open>A value belongs to a format when rounding to the format leaves it alone.\<close>

fun representable :: "format \<Rightarrow> fp \<Rightarrow> bool" where
  "representable fmt (Fin q) = (fp_round fmt q = Fin q)"
| "representable fmt _ = True"

fun fp_neg :: "fp \<Rightarrow> fp" where
  "fp_neg NaN = NaN"
| "fp_neg PInf = NInf"
| "fp_neg NInf = PInf"
| "fp_neg NZero = Fin 0"
| "fp_neg (Fin q) = (if q = 0 then NZero else Fin (- q))"

fun fp_add :: "format \<Rightarrow> fp \<Rightarrow> fp \<Rightarrow> fp" where
  "fp_add fmt NaN b = NaN"
| "fp_add fmt a NaN = NaN"
| "fp_add fmt PInf NInf = NaN"
| "fp_add fmt NInf PInf = NaN"
| "fp_add fmt PInf b = PInf"
| "fp_add fmt a PInf = PInf"
| "fp_add fmt NInf b = NInf"
| "fp_add fmt a NInf = NInf"
| "fp_add fmt a b =
     (let s = fp_val a + fp_val b
      in if s = 0 then (if signbit a \<and> signbit b then NZero else Fin 0)
         else fp_round fmt s)"

definition fp_sub :: "format \<Rightarrow> fp \<Rightarrow> fp \<Rightarrow> fp" where
  "fp_sub fmt a b = fp_add fmt a (fp_neg b)"

definition fp_mul :: "format \<Rightarrow> fp \<Rightarrow> fp \<Rightarrow> fp" where
  "fp_mul fmt a b =
     (if a = NaN \<or> b = NaN then NaN
      else if \<not> is_finite a \<or> \<not> is_finite b then
        (if (is_finite a \<and> fp_val a = 0) \<or> (is_finite b \<and> fp_val b = 0) then NaN
         else if signbit a \<noteq> signbit b then NInf else PInf)
      else let p = fp_val a * fp_val b
           in if p = 0 then (if signbit a \<noteq> signbit b then NZero else Fin 0)
              else fp_round fmt p)"

text \<open>Conversion between the formats (\<^verbatim>\<open>float\<close> to \<^verbatim>\<open>double\<close> and back).\<close>

fun fp_convert :: "format \<Rightarrow> fp \<Rightarrow> fp" where
  "fp_convert fmt (Fin q) = fp_round fmt q"
| "fp_convert fmt a = a"

text \<open>\<^verbatim>\<open>floor\<close> of \<^verbatim>\<open>math.h\<close>: exact, and the identity on zeros, infinities and NaN.\<close>

fun c_floor :: "fp \<Rightarrow> fp" where
  "c_floor (Fin q) = Fin (of_int \<lfloor>q\<rfloor>)"
| "c_floor a = a"

subsection \<open>C integers and conversions\<close>

type_synonym cint = "32 word"

text \<open>
  \<^verbatim>\<open>(int)d\<close> truncates towards zero; the behaviour is undefined (\<open>None\<close>) when the
  truncated value is not an \<^verbatim>\<open>int\<close>, and for infinities and NaN.
\<close>

fun double_to_int :: "fp \<Rightarrow> cint option" where
  "double_to_int (Fin q) =
     (let k = (if 0 \<le> q then \<lfloor>q\<rfloor> else \<lceil>q\<rceil>)
      in if - (2 ^ 31) \<le> k \<and> k < 2 ^ 31 then Some (word_of_int k) else None)"
| "double_to_int NZero = Some 0"
| "double_to_int _ = None"

definition int_to_double :: "cint \<Rightarrow> fp" where
  "int_to_double k = fp_round binary64 (of_int (sint k))"

subsection \<open>Memory\<close>

text \<open>
  The \<^verbatim>\<open>float\<close> memory maps addresses to values. The state also records the addresses
  stored to, in program order. A buffer is the address a pointer holds and the number
  of elements allocated behind it.
\<close>

datatype fault = OutOfBounds | UndefinedConversion

record state =
  mem :: "nat \<Rightarrow> fp"
  stores :: "nat list"

record buffer =
  base :: nat
  len :: nat

definition load :: "buffer \<Rightarrow> cint \<Rightarrow> state \<Rightarrow> fault + fp" where
  "load b k s =
     (if 0 \<le> sint k \<and> sint k < int (len b) then Inr (mem s (base b + nat (sint k)))
      else Inl OutOfBounds)"

definition store :: "buffer \<Rightarrow> cint \<Rightarrow> fp \<Rightarrow> state \<Rightarrow> fault + state" where
  "store b k v s =
     (if 0 \<le> sint k \<and> sint k < int (len b)
      then Inr (s\<lparr>mem := (mem s)(base b + nat (sint k) := v),
                  stores := stores s @ [base b + nat (sint k)]\<rparr>)
      else Inl OutOfBounds)"

text \<open>The table of positions is a separate array of \<^verbatim>\<open>double\<close>, read only.\<close>

definition load_double :: "fp list \<Rightarrow> cint \<Rightarrow> fault + fp" where
  "load_double xs k =
     (if 0 \<le> sint k \<and> sint k < int (length xs) then Inr (xs ! nat (sint k))
      else Inl OutOfBounds)"

definition bindE :: "fault + 'a \<Rightarrow> ('a \<Rightarrow> fault + 'b) \<Rightarrow> fault + 'b" where
  "bindE m f = (case m of Inl e \<Rightarrow> Inl e | Inr x \<Rightarrow> f x)"

subsection \<open>The loops\<close>

text \<open>\<^verbatim>\<open>for (int k = k0; k < n; k++) body\<close>, stopping at the first fault.\<close>

function for_loop :: "cint \<Rightarrow> cint \<Rightarrow> (cint \<Rightarrow> 's \<Rightarrow> fault + 's) \<Rightarrow> 's \<Rightarrow> fault + 's" where
  "for_loop k n body s =
     (if k <s n then (case body k s of Inl e \<Rightarrow> Inl e | Inr s' \<Rightarrow> for_loop (k + 1) n body s')
      else Inr s)"
  by pat_completeness auto

termination
proof (relation "measure (\<lambda>(k, n, body, s). nat (sint n - sint k))")
  show "wf (measure (\<lambda>(k :: cint, n :: cint, body :: cint \<Rightarrow> 's \<Rightarrow> fault + 's, s :: 's).
    nat (sint n - sint k)))"
    by simp
next
  fix k n :: cint and body :: "cint \<Rightarrow> 's \<Rightarrow> fault + 's" and s x :: 's
  assume "k <s n"
  then have lt: "sint k < sint n"
    by (simp add: word_sless_alt)
  moreover have "sint n < 2 ^ 31" "- (2 ^ 31) \<le> sint k"
    using sint_lt [of n] sint_ge [of k] by simp_all
  ultimately have "sint (k + 1) = sint k + 1"
    by (simp add: sint_word_ariths signed_take_bit_int_eq_self)
  with lt show "((k + 1, n, body, x), (k, n, body, s))
    \<in> measure (\<lambda>(k, n, body, s). nat (sint n - sint k))"
    by simp
qed

declare for_loop.simps [simp del]

subsection \<open>The two kernels\<close>

text \<open>
  \<^verbatim>\<open>interpolation_loop\<close> of \<^verbatim>\<open>interpolate.c\<close>. In the blend \<^verbatim>\<open>(1.0 - t) * v0 + t * v1\<close>
  the two \<^verbatim>\<open>float\<close> samples are promoted to \<^verbatim>\<open>double\<close>, and the cast stores the
  \<^verbatim>\<open>double\<close> result as a \<^verbatim>\<open>float\<close>.
\<close>

definition interpolation_loop ::
  "buffer \<Rightarrow> fp list \<Rightarrow> buffer \<Rightarrow> cint \<Rightarrow> cint \<Rightarrow> cint \<Rightarrow> cint \<Rightarrow> state \<Rightarrow> fault + state" where
  "interpolation_loop proj normalized_angles out num_proj num_rows orig_num_detectors num_cols =
     for_loop 0 num_proj (\<lambda>i.
       for_loop 0 num_rows (\<lambda>r.
         for_loop 0 num_cols (\<lambda>j s.
           bindE (load_double normalized_angles j) (\<lambda>x.
           case double_to_int (c_floor x) of
             None \<Rightarrow> Inl UndefinedConversion
           | Some idx \<Rightarrow>
               let t = fp_sub binary64 x (int_to_double idx);
                   proj_offset = (i * num_rows + r) * orig_num_detectors;
                   out_offset = (i * num_rows + r) * num_cols
               in if idx <s 0 then
                    bindE (load proj proj_offset s) (\<lambda>v.
                    store out (out_offset + j) v s)
                  else if orig_num_detectors - 1 \<le>s idx then
                    bindE (load proj (proj_offset + orig_num_detectors - 1) s) (\<lambda>v.
                    store out (out_offset + j) v s)
                  else
                    bindE (load proj (proj_offset + idx) s) (\<lambda>v0.
                    bindE (load proj (proj_offset + idx + 1) s) (\<lambda>v1.
                    store out (out_offset + j)
                      (fp_convert binary32
                        (fp_add binary64
                          (fp_mul binary64 (fp_sub binary64 (Fin 1) t) (fp_convert binary64 v0))
                          (fp_mul binary64 t (fp_convert binary64 v1)))) s))))))"

text \<open>\<^verbatim>\<open>interp_loop\<close> of \<^verbatim>\<open>c_library/interpolate.c\<close>.\<close>

definition interp_loop ::
  "buffer \<Rightarrow> fp list \<Rightarrow> buffer \<Rightarrow> cint \<Rightarrow> cint \<Rightarrow> cint \<Rightarrow> cint \<Rightarrow> state \<Rightarrow> fault + state" where
  "interp_loop proj normalized_angles out num_angles num_rows orig_num_detectors num_cols =
     for_loop 0 num_angles (\<lambda>i.
       for_loop 0 num_rows (\<lambda>r.
         for_loop 0 num_cols (\<lambda>j s.
           bindE (load_double normalized_angles j) (\<lambda>x.
           case double_to_int (c_floor x) of
             None \<Rightarrow> Inl UndefinedConversion
           | Some idx \<Rightarrow>
               let t = fp_sub binary64 x (int_to_double idx);
                   proj_offset = (i * num_rows + r) * orig_num_detectors;
                   out_offset = (i * num_rows + r) * num_cols
               in if idx <s 0 then
                    bindE (load proj proj_offset s) (\<lambda>v.
                    store out (out_offset + j) v s)
                  else if orig_num_detectors - 1 \<le>s idx then
                    bindE (load proj (proj_offset + orig_num_detectors - 1) s) (\<lambda>v.
                    store out (out_offset + j) v s)
                  else
                    bindE (load proj (proj_offset + idx) s) (\<lambda>v0.
                    bindE (load proj (proj_offset + idx + 1) s) (\<lambda>v1.
                    store out (out_offset + j)
                      (fp_convert binary32
                        (fp_add binary64
                          (fp_mul binary64 (fp_sub binary64 (Fin 1) t) (fp_convert binary64 v0))
                          (fp_mul binary64 t (fp_convert binary64 v1)))) s))))))"


subsection \<open>The loop body, the work items and the schedule\<close>

text \<open>
  The body of the innermost loop, named, with the parameters it uses. The kernels above
  are the three loops around it (lemma \<open>interpolation_loop_body\<close>).
\<close>

definition sample_step ::
  "buffer \<Rightarrow> fp list \<Rightarrow> buffer \<Rightarrow> cint \<Rightarrow> cint \<Rightarrow> cint \<Rightarrow> cint \<Rightarrow> cint \<Rightarrow> cint \<Rightarrow> state \<Rightarrow> fault + state" where
  "sample_step proj normalized_angles out num_rows orig_num_detectors num_cols i r =
     (\<lambda>j s.
           bindE (load_double normalized_angles j) (\<lambda>x.
           case double_to_int (c_floor x) of
             None \<Rightarrow> Inl UndefinedConversion
           | Some idx \<Rightarrow>
               let t = fp_sub binary64 x (int_to_double idx);
                   proj_offset = (i * num_rows + r) * orig_num_detectors;
                   out_offset = (i * num_rows + r) * num_cols
               in if idx <s 0 then
                    bindE (load proj proj_offset s) (\<lambda>v.
                    store out (out_offset + j) v s)
                  else if orig_num_detectors - 1 \<le>s idx then
                    bindE (load proj (proj_offset + orig_num_detectors - 1) s) (\<lambda>v.
                    store out (out_offset + j) v s)
                  else
                    bindE (load proj (proj_offset + idx) s) (\<lambda>v0.
                    bindE (load proj (proj_offset + idx + 1) s) (\<lambda>v1.
                    store out (out_offset + j)
                      (fp_convert binary32
                        (fp_add binary64
                          (fp_mul binary64 (fp_sub binary64 (Fin 1) t) (fp_convert binary64 v0))
                          (fp_mul binary64 t (fp_convert binary64 v1)))) s))))"

text \<open>
  The first three statements of the body: the position \<open>x\<close> gives the index of the left
  neighbour and the fraction \<open>t\<close>.
\<close>

definition position :: "fp \<Rightarrow> (cint \<times> fp) option" where
  "position x =
     (case double_to_int (c_floor x) of
        None \<Rightarrow> None
      | Some idx \<Rightarrow> Some (idx, fp_sub binary64 x (int_to_double idx)))"

text \<open>The two row offsets and the element offsets derived from them, as the body computes them.\<close>

definition proj_offset :: "cint \<Rightarrow> cint \<Rightarrow> cint \<Rightarrow> cint \<Rightarrow> cint" where
  "proj_offset i r num_rows orig_num_detectors = (i * num_rows + r) * orig_num_detectors"

definition out_offset :: "cint \<Rightarrow> cint \<Rightarrow> cint \<Rightarrow> cint \<Rightarrow> cint" where
  "out_offset i r num_rows num_cols = (i * num_rows + r) * num_cols"

text \<open>
  \<^verbatim>\<open>#pragma omp parallel for collapse(2) schedule(static)\<close> makes one work item of each
  pair \<open>(i, r)\<close>: the loop over \<open>j\<close>. The items are dealt out to the threads; as they share
  no cell that one of them writes, a run of the team is a run of the items in some order.
\<close>

definition work_item ::
  "buffer \<Rightarrow> fp list \<Rightarrow> buffer \<Rightarrow> cint \<Rightarrow> cint \<Rightarrow> cint \<Rightarrow> cint \<times> cint \<Rightarrow> state \<Rightarrow> fault + state" where
  "work_item proj normalized_angles out num_rows orig_num_detectors num_cols ir =
     for_loop 0 num_cols
       (sample_step proj normalized_angles out num_rows orig_num_detectors num_cols (fst ir) (snd ir))"

fun foldE :: "('a \<Rightarrow> 's \<Rightarrow> fault + 's) \<Rightarrow> 'a list \<Rightarrow> 's \<Rightarrow> fault + 's" where
  "foldE f [] s = Inr s"
| "foldE f (x # xs) s = bindE (f x s) (foldE f xs)"

definition run_schedule ::
  "(cint \<times> cint) list \<Rightarrow> buffer \<Rightarrow> fp list \<Rightarrow> buffer \<Rightarrow> cint \<Rightarrow> cint \<Rightarrow> cint \<Rightarrow> state \<Rightarrow> fault + state" where
  "run_schedule ws proj normalized_angles out num_rows orig_num_detectors num_cols =
     foldE (work_item proj normalized_angles out num_rows orig_num_detectors num_cols) ws"

definition iteration_space :: "cint \<Rightarrow> cint \<Rightarrow> (cint \<times> cint) list" where
  "iteration_space num_proj num_rows =
     concat (map (\<lambda>i. map (\<lambda>r. (of_nat i, of_nat r)) [0..<nat (sint num_rows)])
       [0..<nat (sint num_proj)])"

definition is_schedule :: "(cint \<times> cint) list \<Rightarrow> cint \<Rightarrow> cint \<Rightarrow> bool" where
  "is_schedule ws num_proj num_rows \<longleftrightarrow>
     distinct ws \<and> set ws = set (iteration_space num_proj num_rows)"

text \<open>
  Finer than the work items: the executions of the loop body, one for each \<open>((i, r), j)\<close>.
  The threads of the team execute them interleaved; a run is the list of the executions
  in the order in which they happen.
\<close>

definition iterations :: "cint \<Rightarrow> cint \<Rightarrow> cint \<Rightarrow> ((cint \<times> cint) \<times> cint) list" where
  "iterations num_proj num_rows num_cols =
     List.product (iteration_space num_proj num_rows) (map of_nat [0..<nat (sint num_cols)])"

definition run_interleaved ::
  "((cint \<times> cint) \<times> cint) list \<Rightarrow> buffer \<Rightarrow> fp list \<Rightarrow> buffer \<Rightarrow> cint \<Rightarrow> cint \<Rightarrow> cint \<Rightarrow> state \<Rightarrow> fault + state" where
  "run_interleaved zs proj normalized_angles out num_rows orig_num_detectors num_cols =
     foldE (\<lambda>z. sample_step proj normalized_angles out num_rows orig_num_detectors num_cols
       (fst (fst z)) (snd (fst z)) (snd z)) zs"

definition is_interleaving :: "((cint \<times> cint) \<times> cint) list \<Rightarrow> cint \<Rightarrow> cint \<Rightarrow> cint \<Rightarrow> bool" where
  "is_interleaving zs num_proj num_rows num_cols \<longleftrightarrow>
     distinct zs \<and> set zs = set (iterations num_proj num_rows num_cols)"

subsection \<open>The contract of a call\<close>

definition convertible :: "fp \<Rightarrow> bool" where
  "convertible x \<longleftrightarrow> double_to_int (c_floor x) \<noteq> None"

text \<open>
  The data-model invariants (extents are sizes, the buffers hold the extents, the table
  has \<open>num_cols\<close> entries), and what the code needs besides: one detector column at
  least, volumes whose sizes are \<^verbatim>\<open>int\<close> values, positions whose floor is an \<^verbatim>\<open>int\<close>.
\<close>

definition valid_call ::
  "buffer \<Rightarrow> fp list \<Rightarrow> buffer \<Rightarrow> cint \<Rightarrow> cint \<Rightarrow> cint \<Rightarrow> cint \<Rightarrow> bool" where
  "valid_call proj normalized_angles out num_proj num_rows orig_num_detectors num_cols \<longleftrightarrow>
     0 \<le> sint num_proj \<and> 0 \<le> sint num_rows \<and> 0 \<le> sint num_cols \<and>
     1 \<le> sint orig_num_detectors \<and>
     sint num_proj * sint num_rows * sint orig_num_detectors \<le> 2 ^ 31 - 1 \<and>
     sint num_proj * sint num_rows * sint num_cols \<le> 2 ^ 31 - 1 \<and>
     sint num_proj * sint num_rows * sint orig_num_detectors \<le> int (len proj) \<and>
     sint num_proj * sint num_rows * sint num_cols \<le> int (len out) \<and>
     int (length normalized_angles) = sint num_cols \<and>
     (\<forall>x \<in> set normalized_angles. convertible x)"

text \<open>The extents of \<^verbatim>\<open>proj\<close> and \<^verbatim>\<open>out\<close> do not overlap.\<close>

definition separate :: "buffer \<Rightarrow> buffer \<Rightarrow> cint \<Rightarrow> cint \<Rightarrow> cint \<Rightarrow> cint \<Rightarrow> bool" where
  "separate proj out num_proj num_rows orig_num_detectors num_cols \<longleftrightarrow>
     int (base proj) + sint num_proj * sint num_rows * sint orig_num_detectors \<le> int (base out) \<or>
     int (base out) + sint num_proj * sint num_rows * sint num_cols \<le> int (base proj)"

text \<open>
  The invariants of the data model (specification, section 3): the extents are sizes,
  each buffer holds its extent, the table has \<open>num_cols\<close> entries, and the extents of
  \<^verbatim>\<open>proj\<close> and \<^verbatim>\<open>out\<close> do not overlap.
\<close>

definition data_model ::
  "buffer \<Rightarrow> fp list \<Rightarrow> buffer \<Rightarrow> cint \<Rightarrow> cint \<Rightarrow> cint \<Rightarrow> cint \<Rightarrow> bool" where
  "data_model proj normalized_angles out num_proj num_rows orig_num_detectors num_cols \<longleftrightarrow>
     0 \<le> sint num_proj \<and> 0 \<le> sint num_rows \<and> 0 \<le> sint orig_num_detectors \<and>
     0 \<le> sint num_cols \<and>
     sint num_proj * sint num_rows * sint orig_num_detectors \<le> int (len proj) \<and>
     sint num_proj * sint num_rows * sint num_cols \<le> int (len out) \<and>
     int (length normalized_angles) = sint num_cols \<and>
     separate proj out num_proj num_rows orig_num_detectors num_cols"

text \<open>
  What the code needs on top of them: a detector column to clamp to, volumes whose
  sizes are \<^verbatim>\<open>int\<close> values, and positions whose floor is an \<^verbatim>\<open>int\<close>.
\<close>

definition int_sized :: "fp list \<Rightarrow> cint \<Rightarrow> cint \<Rightarrow> cint \<Rightarrow> cint \<Rightarrow> bool" where
  "int_sized normalized_angles num_proj num_rows orig_num_detectors num_cols \<longleftrightarrow>
     1 \<le> sint orig_num_detectors \<and>
     sint num_proj * sint num_rows * sint orig_num_detectors \<le> 2 ^ 31 - 1 \<and>
     sint num_proj * sint num_rows * sint num_cols \<le> 2 ^ 31 - 1 \<and>
     (\<forall>x \<in> set normalized_angles. convertible x)"

text \<open>A memory with the given cells from address 0 on, NaN elsewhere, and no store yet.\<close>

definition memory :: "fp list \<Rightarrow> state" where
  "memory xs = \<lparr>mem = (\<lambda>a. if a < length xs then xs ! a else NaN), stores = []\<rparr>"

text \<open>The addresses of the elements \<^verbatim>\<open>proj[p][r][d]\<close> and \<^verbatim>\<open>out[p][r][j]\<close>.\<close>

definition proj_at :: "buffer \<Rightarrow> cint \<Rightarrow> cint \<Rightarrow> int \<Rightarrow> int \<Rightarrow> int \<Rightarrow> nat" where
  "proj_at proj num_rows orig_num_detectors p r d =
     base proj + nat ((p * sint num_rows + r) * sint orig_num_detectors + d)"

definition out_at :: "buffer \<Rightarrow> cint \<Rightarrow> cint \<Rightarrow> int \<Rightarrow> int \<Rightarrow> int \<Rightarrow> nat" where
  "out_at out num_rows num_cols p r j =
     base out + nat ((p * sint num_rows + r) * sint num_cols + j)"

text \<open>
  The per-sample algorithm in the words of the specification (section 4.1, steps 1 to
  4), on the mathematical floor of the position: the value of \<^verbatim>\<open>out[p][r][j]\<close> from the
  row \<^verbatim>\<open>proj[p][r]\<close> and the position \<open>x\<close>.
\<close>

definition spec_sample :: "(int \<Rightarrow> fp) \<Rightarrow> int \<Rightarrow> fp \<Rightarrow> fp" where
  "spec_sample row n x =
     (let idx = \<lfloor>fp_val x\<rfloor>;
          t = fp_sub binary64 x (Fin (of_int idx))
      in if idx < 0 then row 0
         else if n - 1 \<le> idx then row (n - 1)
         else fp_convert binary32
                (fp_add binary64
                  (fp_mul binary64 (fp_sub binary64 (Fin 1) t) (fp_convert binary64 (row idx)))
                  (fp_mul binary64 t (fp_convert binary64 (row (idx + 1))))))"

text \<open>
  The same value by the address \<open>a\<close> of the output element: \<open>a\<close> is the element
  \<open>k = a - base out\<close> of \<^verbatim>\<open>out\<close>, in the row \<open>k div num_cols\<close> and the column
  \<open>k mod num_cols\<close>; the row of \<^verbatim>\<open>proj\<close> is read in the memory \<open>m\<close>.
\<close>

definition sample_at ::
  "buffer \<Rightarrow> fp list \<Rightarrow> buffer \<Rightarrow> cint \<Rightarrow> cint \<Rightarrow> (nat \<Rightarrow> fp) \<Rightarrow> nat \<Rightarrow> fp" where
  "sample_at proj normalized_angles out orig_num_detectors num_cols m a =
     (let k = int (a - base out);
          q = k div sint num_cols;
          j = k mod sint num_cols
      in spec_sample (\<lambda>d. m (base proj + nat (q * sint orig_num_detectors + d)))
           (sint orig_num_detectors) (normalized_angles ! nat j))"

text \<open>The addresses of the output extent.\<close>

definition out_extent :: "buffer \<Rightarrow> cint \<Rightarrow> cint \<Rightarrow> cint \<Rightarrow> nat list" where
  "out_extent out num_proj num_rows num_cols =
     map (\<lambda>k. base out + k)
       [0..<nat (sint num_proj) * nat (sint num_rows) * nat (sint num_cols)]"

text \<open>The address that the body stores to in the iteration \<open>((i, r), j)\<close>.\<close>

definition store_address :: "buffer \<Rightarrow> cint \<Rightarrow> cint \<Rightarrow> (cint \<times> cint) \<times> cint \<Rightarrow> nat" where
  "store_address out num_rows num_cols z =
     out_at out num_rows num_cols (sint (fst (fst z))) (sint (snd (fst z))) (sint (snd z))"

text \<open>The value of the cell \<open>a\<close> after a call, or the fault of the call.\<close>

definition cell_after :: "nat \<Rightarrow> fault + state \<Rightarrow> fault + fp" where
  "cell_after a res = (case res of Inl e \<Rightarrow> Inl e | Inr s \<Rightarrow> Inr (mem s a))"

section \<open>Properties\<close>

subsection \<open>The loops as folds\<close>

lemma interpolation_loop_body:
  "interpolation_loop proj normalized_angles out num_proj num_rows orig_num_detectors num_cols =
     for_loop 0 num_proj (\<lambda>i. for_loop 0 num_rows (\<lambda>r. for_loop 0 num_cols
       (sample_step proj normalized_angles out num_rows orig_num_detectors num_cols i r)))"
  unfolding interpolation_loop_def sample_step_def by (rule refl)

lemma bindE_Inl [simp]: "bindE (Inl e) f = Inl e"
  by (simp add: bindE_def)

lemma bindE_Inr [simp]: "bindE (Inr x) f = f x"
  by (simp add: bindE_def)

lemma sint_succ: "k <s n \<Longrightarrow> sint (k + 1) = sint k + 1" for k n :: cint
proof -
  assume "k <s n"
  then have "sint k < sint n"
    by (simp add: word_sless_alt)
  moreover have "sint n < 2 ^ 31" "- (2 ^ 31) \<le> sint k"
    using sint_lt [of n] sint_ge [of k] by simp_all
  ultimately show ?thesis
    by (simp add: sint_word_ariths signed_take_bit_int_eq_self)
qed

lemma for_loop_foldE:
  "0 \<le> sint k \<Longrightarrow>
   for_loop k n body s = foldE body (map of_nat [nat (sint k)..<nat (sint n)]) s"
proof (induction k n body s rule: for_loop.induct)
  case (1 k n body s)
  show ?case
  proof (cases "k <s n")
    case True
    then have lt: "sint k < sint n"
      by (simp add: word_sless_alt)
    have succ: "sint (k + 1) = sint k + 1"
      using True by (rule sint_succ)
    have k: "(of_nat (nat (sint k)) :: cint) = k"
      using "1.prems" by simp
    have upt: "[nat (sint k)..<nat (sint n)] = nat (sint k) # [nat (sint (k + 1))..<nat (sint n)]"
      using lt "1.prems" by (simp add: succ upt_conv_Cons nat_add_distrib)
    show ?thesis
    proof (cases "body k s")
      case (Inl e)
      with True show ?thesis
        by (simp add: for_loop.simps [of k] upt k)
    next
      case (Inr s')
      have "for_loop (k + 1) n body s' = foldE body (map of_nat [nat (sint (k + 1))..<nat (sint n)]) s'"
        using True Inr "1.prems" by (intro "1.IH") (simp_all add: succ)
      with True Inr show ?thesis
        by (simp add: for_loop.simps [of k] upt k)
    qed
  next
    case False
    then have "sint n \<le> sint k"
      by (simp add: word_sless_alt)
    with False show ?thesis
      by (simp add: for_loop.simps [of k])
  qed
qed

lemma foldE_append: "foldE f (xs @ ys) s = bindE (foldE f xs s) (foldE f ys)"
  by (induction xs arbitrary: s) (auto simp: bindE_def split: sum.splits)

lemma foldE_concat: "foldE (foldE f) xss s = foldE f (concat xss) s"
  by (induction xss arbitrary: s) (auto simp: foldE_append bindE_def split: sum.splits)

lemma foldE_map: "foldE f (map g xs) s = foldE (\<lambda>x. f (g x)) xs s"
  by (induction xs arbitrary: s) (auto simp: bindE_def split: sum.splits)

lemma foldE_cong: "(\<And>x s. x \<in> set xs \<Longrightarrow> f x s = g x s) \<Longrightarrow> foldE f xs s = foldE g xs s"
  by (induction xs arbitrary: s) (auto simp: bindE_def split: sum.splits)

lemma foldE_writes:
  assumes step: "\<And>x s. x \<in> set xs \<Longrightarrow>
      f x s = Inr (s\<lparr>mem := (mem s)(addr x := g (addr x) (mem s)), stores := stores s @ [addr x]\<rparr>)"
    and indep: "\<And>x y m v. x \<in> set xs \<Longrightarrow> y \<in> set xs \<Longrightarrow> g (addr x) (m(addr y := v)) = g (addr x) m"
  shows "foldE f xs s =
     Inr (s\<lparr>mem := (\<lambda>a. if a \<in> addr ` set xs then g a (mem s) else mem s a),
           stores := stores s @ map addr xs\<rparr>)"
  using assms
proof (induction xs arbitrary: s)
  case Nil
  then show ?case by simp
next
  case (Cons x xs)
  let ?s1 = "s\<lparr>mem := (mem s)(addr x := g (addr x) (mem s)), stores := stores s @ [addr x]\<rparr>"
  have fx: "f x s = Inr ?s1"
    by (rule Cons.prems(1)) simp
  have IH: "foldE f xs ?s1 =
     Inr (?s1\<lparr>mem := (\<lambda>a. if a \<in> addr ` set xs then g a (mem ?s1) else mem ?s1 a),
           stores := stores ?s1 @ map addr xs\<rparr>)"
  proof (rule Cons.IH)
    fix y s'
    assume "y \<in> set xs"
    then show "f y s' = Inr (s'\<lparr>mem := (mem s')(addr y := g (addr y) (mem s')),
      stores := stores s' @ [addr y]\<rparr>)"
      by (intro Cons.prems(1)) simp
  next
    fix y z m v
    assume "y \<in> set xs" "z \<in> set xs"
    then show "g (addr y) (m(addr z := v)) = g (addr y) m"
      by (intro Cons.prems(2)) simp_all
  qed
  have g: "g a (mem ?s1) = g a (mem s)" if "a \<in> addr ` set xs" for a
  proof -
    from that obtain y where y: "y \<in> set xs" "a = addr y"
      by blast
    have "g (addr y) ((mem s)(addr x := g (addr x) (mem s))) = g (addr y) (mem s)"
      by (rule Cons.prems(2)) (simp_all add: y)
    with y show ?thesis
      by simp
  qed
  have "(\<lambda>a. if a \<in> addr ` set xs then g a (mem ?s1) else mem ?s1 a) =
        (\<lambda>a. if a \<in> addr ` set (x # xs) then g a (mem s) else mem s a)"
    by (rule ext) (use g in auto)
  with fx IH show ?case
    by simp
qed

subsection \<open>The two source functions\<close>

text \<open>
  C6. \<^verbatim>\<open>interp_loop\<close> and \<^verbatim>\<open>interpolation_loop\<close> compute the same function: with
  \<^verbatim>\<open>num_angles\<close> in the place of \<^verbatim>\<open>num_proj\<close>, both return the same result (the same
  memory, the same stores, or the same fault) on every input.
\<close>

theorem interp_loop_interpolation_loop:
  "interp_loop proj normalized_angles out num_angles num_rows orig_num_detectors num_cols s =
   interpolation_loop proj normalized_angles out num_angles num_rows orig_num_detectors num_cols s"
  unfolding interp_loop_def interpolation_loop_def by (rule refl)

subsection \<open>Rounding\<close>

lemma two_powi_pos [simp]: "0 < (2::rat) powi e"
  by simp

lemma ilog2_bounds:
  assumes "q \<noteq> 0"
  shows "2 powi ilog2 q \<le> \<bar>q\<bar>" and "\<bar>q\<bar> < 2 powi (ilog2 q + 1)"
proof -
  obtain a b where ab: "quotient_of \<bar>q\<bar> = (a, b)"
    by (cases "quotient_of \<bar>q\<bar>")
  then have b: "0 < b" and q: "\<bar>q\<bar> = of_int a / of_int b"
    by (simp_all add: quotient_of_denom_pos quotient_of_div)
  have a: "0 < a"
  proof -
    have "0 < \<bar>q\<bar>"
      using assms by simp
    then have "0 < (of_int a :: rat) / of_int b"
      by (simp only: q)
    with b show ?thesis
      by (simp add: zero_less_divide_iff)
  qed
  define la lb where "la = bitlen a" and "lb = bitlen b"
  have la: "1 \<le> la" and lb: "1 \<le> lb"
    using a b bitlen_eq_zero_iff [of a] bitlen_eq_zero_iff [of b] bitlen_nonneg [of a] bitlen_nonneg [of b]
    by (auto simp: la_def lb_def)
  have "2 ^ nat (la - 1) \<le> a" "a < 2 ^ nat la" "2 ^ nat (lb - 1) \<le> b" "b < 2 ^ nat lb"
    using bitlen_bounds [OF a] bitlen_bounds [OF b] by (simp_all add: la_def lb_def)
  then have "(of_int (2 ^ nat (la - 1)) :: rat) \<le> of_int a" "(of_int a :: rat) < of_int (2 ^ nat la)"
    "(of_int (2 ^ nat (lb - 1)) :: rat) \<le> of_int b" "(of_int b :: rat) < of_int (2 ^ nat lb)"
    by (simp_all only: of_int_le_iff of_int_less_iff)
  then have ra: "(2::rat) powi (la - 1) \<le> of_int a" "(of_int a :: rat) < 2 powi la"
    and rb: "(2::rat) powi (lb - 1) \<le> of_int b" "(of_int b :: rat) < 2 powi lb"
    using la lb by (simp_all add: power_int_nonneg_exp)
  have up: "\<bar>q\<bar> < 2 powi (la - lb + 1)"
  proof -
    have "of_int a / of_int b < (2::rat) powi la / 2 powi (lb - 1)"
      using ra rb a b by (intro frac_less) simp_all
    also have "\<dots> = 2 powi (la - lb + 1)"
      by (simp add: power_int_diff power_int_add)
    finally show ?thesis by (simp add: q)
  qed
  have lo: "2 powi (la - lb - 1) < \<bar>q\<bar>"
  proof -
    have "(2::rat) powi (la - 1) / 2 powi lb < of_int a / of_int b"
      using ra rb a b by (intro frac_less2) simp_all
    moreover have "(2::rat) powi (la - 1) / 2 powi lb = 2 powi (la - lb - 1)"
      by (simp add: power_int_diff)
    ultimately show ?thesis by (simp add: q)
  qed
  have il: "ilog2 q = (if 2 powi (la - lb) \<le> \<bar>q\<bar> then la - lb else la - lb - 1)"
    by (simp add: ilog2_def ab la_def lb_def Let_def)
  show "2 powi ilog2 q \<le> \<bar>q\<bar>"
    using lo by (simp add: il)
  show "\<bar>q\<bar> < 2 powi (ilog2 q + 1)"
    using up by (auto simp: il not_le)
qed

lemma ilog2_ge: "q \<noteq> 0 \<Longrightarrow> 2 powi e \<le> \<bar>q\<bar> \<Longrightarrow> e \<le> ilog2 q"
proof (rule ccontr)
  assume q: "q \<noteq> 0" and e: "2 powi e \<le> \<bar>q\<bar>" and "\<not> e \<le> ilog2 q"
  then have "ilog2 q + 1 \<le> e" by simp
  then have "(2::rat) powi (ilog2 q + 1) \<le> 2 powi e"
    by (intro power_int_increasing) simp_all
  with ilog2_bounds(2) [OF q] e show False by simp
qed

lemma ilog2_less: "q \<noteq> 0 \<Longrightarrow> \<bar>q\<bar> < 2 powi e \<Longrightarrow> ilog2 q < e"
proof (rule ccontr)
  assume q: "q \<noteq> 0" and e: "\<bar>q\<bar> < 2 powi e" and "\<not> ilog2 q < e"
  then have "e \<le> ilog2 q" by simp
  then have "(2::rat) powi e \<le> 2 powi ilog2 q"
    by (intro power_int_increasing) simp_all
  with ilog2_bounds(1) [OF q] e show False by simp
qed

lemma ilog2_mono: "q \<noteq> 0 \<Longrightarrow> \<bar>q\<bar> \<le> \<bar>q'\<bar> \<Longrightarrow> ilog2 q \<le> ilog2 q'"
proof -
  assume q: "q \<noteq> 0" and le: "\<bar>q\<bar> \<le> \<bar>q'\<bar>"
  then have "q' \<noteq> 0" by auto
  moreover have "2 powi ilog2 q \<le> \<bar>q'\<bar>"
    using ilog2_bounds(1) [OF q] le by simp
  ultimately show ?thesis by (rule ilog2_ge)
qed

lemma rint_even_of_int [simp]: "rint_even (of_int n) = n"
  by (simp add: rint_even_def)

lemma rint_even_error: "\<bar>of_int (rint_even y) - y\<bar> \<le> 1 / 2"
  by (auto simp: rint_even_def Let_def abs_if not_less) linarith+

lemma rint_even_ge: "of_int n \<le> y \<Longrightarrow> n \<le> rint_even y"
proof -
  assume "of_int n \<le> y"
  then have "n \<le> \<lfloor>y\<rfloor>"
    by (simp add: le_floor_iff)
  then show ?thesis
    by (simp add: rint_even_def Let_def)
qed

lemma rint_even_le: "y \<le> of_int n \<Longrightarrow> rint_even y \<le> n"
proof -
  assume le: "y \<le> of_int n"
  then have fl: "\<lfloor>y\<rfloor> \<le> n"
    by (simp add: floor_le_iff)
  show ?thesis
  proof (cases "\<lfloor>y\<rfloor> = n")
    case True
    then have "y = of_int \<lfloor>y\<rfloor>"
      using le of_int_floor_le [of y] by simp
    then have "y - of_int \<lfloor>y\<rfloor> = 0"
      by simp
    then show ?thesis
      using True by (simp add: rint_even_def Let_def)
  next
    case False
    with fl have "\<lfloor>y\<rfloor> + 1 \<le> n"
      by simp
    with fl show ?thesis
      by (simp add: rint_even_def Let_def)
  qed
qed


lemma fp_round_exact:
  assumes q: "q \<noteq> 0" and form: "q = of_int n * 2 powi k" and k: "quantum fmt q \<le> k"
    and fin: "\<bar>q\<bar> < 2 powi (emax fmt + 1)"
  shows "fp_round fmt q = Fin q"
proof -
  define u :: rat where "u = 2 powi quantum fmt q"
  define m where "m = nat (k - quantum fmt q)"
  have u: "0 < u"
    by (simp add: u_def)
  have "(2::rat) powi k = u * 2 powi (k - quantum fmt q)"
    by (simp add: u_def flip: power_int_add)
  also have "2 powi (k - quantum fmt q) = (2::rat) ^ m"
    using k by (simp add: power_int_nonneg_exp m_def)
  finally have "q = of_int n * (u * 2 ^ m)"
    using form by (simp only:)
  then have "q / u = of_int (n * 2 ^ m)"
    using u by simp
  then have "of_int (rint_even (q / u)) * u = q"
    using u by (simp only: rint_even_of_int) (simp add: field_simps)
  with q fin show ?thesis
    by (simp add: fp_round_def Let_def flip: u_def)
qed

lemma fp_round_form:
  assumes "q \<noteq> 0" and "fp_round fmt q = Fin q'"
  shows "q' = of_int (rint_even (q / 2 powi quantum fmt q)) * 2 powi quantum fmt q"
    and "\<bar>q'\<bar> < 2 powi (emax fmt + 1)"
  using assms by (auto simp: fp_round_def Let_def split: if_splits)

lemma int_to_double_exact: "int_to_double k = Fin (of_int (sint k))"
proof (cases "sint k = 0")
  case True
  then show ?thesis
    by (simp add: int_to_double_def fp_round_def del: of_int_sint)
next
  case False
  define q :: rat where "q = of_int (sint k)"
  have q: "q \<noteq> 0"
    using False by (simp add: q_def del: of_int_sint)
  have "\<bar>sint k\<bar> < 2 ^ 32"
    using sint_lt [of k] sint_ge [of k] by simp
  then have "\<bar>q\<bar> < of_int (2 ^ 32)"
    unfolding q_def by (simp only: of_int_less_iff flip: of_int_abs)
  then have bound: "\<bar>q\<bar> < 2 powi 32"
    by simp
  then have "ilog2 q < 32"
    using q by (intro ilog2_less)
  then have "quantum binary64 q \<le> 0"
    by (simp add: quantum_def binary64_def)
  moreover have "q = of_int (sint k) * 2 powi 0"
    by (simp add: q_def del: of_int_sint)
  moreover have "\<bar>q\<bar> < 2 powi (emax binary64 + 1)"
    using bound by (simp add: binary64_def)
  ultimately have "fp_round binary64 q = Fin q"
    using q by (intro fp_round_exact)
  then show ?thesis
    by (simp add: int_to_double_def q_def del: of_int_sint)
qed

subsection \<open>One execution of the loop body\<close>

lemma sint_eqI: "w = word_of_int M \<Longrightarrow> - (2 ^ 31) \<le> M \<Longrightarrow> M < 2 ^ 31 \<Longrightarrow> sint (w :: cint) = M"
  by (simp add: sint_sbintrunc' signed_take_bit_int_eq_self)

lemma flat_index_bounds:
  fixes p r d P R N :: int
  assumes "0 \<le> p" "p < P" "0 \<le> r" "r < R" "0 \<le> d" "d < N"
  shows "0 \<le> (p * R + r) * N + d" and "(p * R + r) * N + d < P * R * N"
proof -
  have "(p + 1) * R \<le> P * R"
    using assms by (intro mult_right_mono) simp_all
  then have q: "p * R + r + 1 \<le> P * R"
    using assms by (simp add: algebra_simps)
  have "0 \<le> p * R"
    using assms by simp
  then have q0: "0 \<le> p * R + r"
    using assms by simp
  then have "0 \<le> (p * R + r) * N"
    using assms by simp
  then show "0 \<le> (p * R + r) * N + d"
    using assms by simp
  have "(p * R + r + 1) * N \<le> P * R * N"
    using q assms by (intro mult_right_mono) simp_all
  then show "(p * R + r) * N + d < P * R * N"
    using assms by (simp add: algebra_simps)
qed

lemma load_at: "sint k = M \<Longrightarrow> 0 \<le> M \<Longrightarrow> M < int (len b) \<Longrightarrow> load b k s = Inr (mem s (base b + nat M))"
  by (simp add: load_def)

lemma store_at:
  "sint k = M \<Longrightarrow> 0 \<le> M \<Longrightarrow> M < int (len b) \<Longrightarrow>
   store b k v s = Inr (s\<lparr>mem := (mem s)(base b + nat M := v), stores := stores s @ [base b + nat M]\<rparr>)"
  by (simp add: store_def)

lemma double_to_int_floor:
  assumes "double_to_int (c_floor x) = Some idx"
  shows "sint idx = \<lfloor>fp_val x\<rfloor>"
proof (cases x)
  case (Fin q)
  have "(if 0 \<le> (of_int \<lfloor>q\<rfloor> :: rat) then \<lfloor>(of_int \<lfloor>q\<rfloor> :: rat)\<rfloor> else \<lceil>(of_int \<lfloor>q\<rfloor> :: rat)\<rceil>) = \<lfloor>q\<rfloor>"
    by simp
  with assms Fin have "- (2 ^ 31) \<le> \<lfloor>q\<rfloor>" "\<lfloor>q\<rfloor> < 2 ^ 31" "idx = word_of_int \<lfloor>q\<rfloor>"
    by (auto simp: Let_def split: if_splits)
  then show ?thesis
    using Fin by (simp add: sint_eqI)
qed (use assms in auto)

lemma convertible_iff:
  "convertible x \<longleftrightarrow> is_finite x \<and> - (2 ^ 31) \<le> \<lfloor>fp_val x\<rfloor> \<and> \<lfloor>fp_val x\<rfloor> < 2 ^ 31"
  by (cases x) (auto simp: convertible_def Let_def)

lemma sample_step_valid:
  assumes valid: "valid_call proj normalized_angles out num_proj num_rows orig_num_detectors num_cols"
    and I: "int I < sint num_proj" and r: "int r < sint num_rows" and j: "int j < sint num_cols"
  shows "sample_step proj normalized_angles out num_rows orig_num_detectors num_cols
           (of_nat I) (of_nat r) (of_nat j) s =
         Inr (s\<lparr>mem := (mem s)(out_at out num_rows num_cols (int I) (int r) (int j) :=
                   spec_sample (\<lambda>d. mem s (proj_at proj num_rows orig_num_detectors (int I) (int r) d))
                     (sint orig_num_detectors) (normalized_angles ! j)),
               stores := stores s @ [out_at out num_rows num_cols (int I) (int r) (int j)]\<rparr>)"
proof -
  define P R N C where "P = sint num_proj" and "R = sint num_rows"
    and "N = sint orig_num_detectors" and "C = sint num_cols"
  define q where "q = int I * R + int r"
  define x where "x = normalized_angles ! j"
  note defs = P_def R_def N_def C_def
  from valid have N1: "1 \<le> N" and PRN: "P * R * N \<le> 2 ^ 31 - 1" and PRC: "P * R * C \<le> 2 ^ 31 - 1"
    and lenp: "P * R * N \<le> int (len proj)" and leno: "P * R * C \<le> int (len out)"
    and lena: "int (length normalized_angles) = C"
    and conv: "\<forall>x \<in> set normalized_angles. convertible x"
    by (simp_all add: valid_call_def defs)
  have I': "int I < P" and r': "int r < R" and j': "int j < C"
    using I r j by (simp_all add: defs)
  have pb: "0 \<le> q * N + d" "q * N + d < P * R * N" if "0 \<le> d" "d < N" for d
    using flat_index_bounds [of "int I" P "int r" R d N] that I' r' by (simp_all add: q_def)
  have ob: "0 \<le> q * C + int j" "q * C + int j < P * R * C"
    using flat_index_bounds [of "int I" P "int r" R "int j" C] I' r' j' by (simp_all add: q_def)
  have sj: "sint (of_nat j :: cint) = int j"
    using j' sint_lt [of num_cols] by (intro sint_eqI) (simp_all add: C_def)
  have jlen: "j < length normalized_angles"
    using j' lena by simp
  then have ld: "load_double normalized_angles (of_nat j) = Inr x"
    by (simp add: load_double_def sj x_def)
  have "convertible x"
    using conv jlen by (simp add: x_def)
  then obtain idx where idx: "double_to_int (c_floor x) = Some idx"
    by (auto simp: convertible_def)
  define k where "k = \<lfloor>fp_val x\<rfloor>"
  have sidx: "sint idx = k"
    using idx by (simp add: double_to_int_floor k_def)
  have t: "int_to_double idx = Fin (of_int k)"
    by (simp only: int_to_double_exact sidx)
  have so: "sint ((of_nat I * num_rows + of_nat r) * num_cols + of_nat j :: cint) = q * C + int j"
    using ob PRC by (intro sint_eqI) (simp_all add: q_def defs)
  have st: "store out ((of_nat I * num_rows + of_nat r) * num_cols + of_nat j) v s =
      Inr (s\<lparr>mem := (mem s)(out_at out num_rows num_cols (int I) (int r) (int j) := v),
        stores := stores s @ [out_at out num_rows num_cols (int I) (int r) (int j)]\<rparr>)" for v
    using ob leno by (subst store_at [OF so]) (simp_all add: out_at_def q_def defs)
  have lt0: "idx <s 0 \<longleftrightarrow> k < 0"
    by (simp add: word_sless_alt sidx)
  have sN1: "sint (orig_num_detectors - 1) = N - 1"
    using N1 sint_lt [of orig_num_detectors] by (intro sint_eqI) (simp_all add: N_def)
  have ge: "orig_num_detectors - 1 \<le>s idx \<longleftrightarrow> N - 1 \<le> k"
    by (simp add: word_sle_eq sidx sN1)
  have row: "load proj w s = Inr (mem s (proj_at proj num_rows orig_num_detectors (int I) (int r) d))"
    if "w = word_of_int (q * N + d)" "0 \<le> d" "d < N" for w d
  proof -
    have "sint w = q * N + d"
      using that pb [of d] PRN by (intro sint_eqI) simp_all
    then show ?thesis
      using pb [of d] that lenp by (subst load_at) (simp_all add: proj_at_def q_def defs)
  qed
  show ?thesis
  proof (cases "k < 0")
    case True
    have "load proj ((of_nat I * num_rows + of_nat r) * orig_num_detectors) s =
        Inr (mem s (proj_at proj num_rows orig_num_detectors (int I) (int r) 0))"
      using N1 by (intro row) (simp_all add: q_def defs)
    with True show ?thesis
      by (simp add: sample_step_def ld idx Let_def lt0 st spec_sample_def flip: k_def x_def N_def)
  next
    case False
    show ?thesis
    proof (cases "N - 1 \<le> k")
      case True
      have "load proj ((of_nat I * num_rows + of_nat r) * orig_num_detectors + orig_num_detectors - 1) s =
          Inr (mem s (proj_at proj num_rows orig_num_detectors (int I) (int r) (N - 1)))"
        using N1 by (intro row) (simp_all add: q_def defs)
      with True False show ?thesis
        by (simp add: sample_step_def ld idx Let_def lt0 ge st spec_sample_def flip: k_def x_def N_def)
    next
      case nge: False
      have w: "idx = word_of_int k"
        by (simp flip: sidx)
      have "load proj ((of_nat I * num_rows + of_nat r) * orig_num_detectors + idx) s =
          Inr (mem s (proj_at proj num_rows orig_num_detectors (int I) (int r) k))"
        using False nge by (intro row) (simp_all add: q_def defs w)
      moreover have "load proj ((of_nat I * num_rows + of_nat r) * orig_num_detectors + idx + 1) s =
          Inr (mem s (proj_at proj num_rows orig_num_detectors (int I) (int r) (k + 1)))"
        using False nge by (intro row) (simp_all add: q_def defs w)
      ultimately show ?thesis
        using False nge
        by (simp add: sample_step_def ld idx Let_def lt0 ge st t spec_sample_def flip: k_def x_def N_def)
    qed
  qed
qed

subsection \<open>The kernel as a run of the work items\<close>

lemma foldE_product:
  "foldE (\<lambda>x. foldE (\<lambda>y. f (x, y)) ys) xs s = foldE f (List.product xs ys) s"
proof -
  have "List.product xs ys = concat (map (\<lambda>x. map (Pair x) ys) xs)"
    by (induction xs) simp_all
  then have "foldE f (List.product xs ys) s = foldE (foldE f) (map (\<lambda>x. map (Pair x) ys) xs) s"
    by (simp add: foldE_concat)
  also have "\<dots> = foldE (\<lambda>x. foldE f (map (Pair x) ys)) xs s"
    by (simp add: foldE_map)
  also have "\<dots> = foldE (\<lambda>x. foldE (\<lambda>y. f (x, y)) ys) xs s"
    by (intro foldE_cong) (simp add: foldE_map)
  finally show ?thesis by simp
qed

lemma for_loop_from_0: "for_loop 0 n body s = foldE body (map of_nat [0..<nat (sint n)]) s"
  using for_loop_foldE [of 0 n body s] by simp

lemma work_item_foldE:
  "work_item proj normalized_angles out num_rows orig_num_detectors num_cols ir s =
   foldE (\<lambda>j. sample_step proj normalized_angles out num_rows orig_num_detectors num_cols
       (fst ir) (snd ir) j) (map of_nat [0..<nat (sint num_cols)]) s"
  by (simp add: work_item_def for_loop_from_0)

lemma iteration_space_product:
  "iteration_space num_proj num_rows =
   List.product (map of_nat [0..<nat (sint num_proj)]) (map of_nat [0..<nat (sint num_rows)])"
proof -
  have "List.product (map f xs) (map g ys) = concat (map (\<lambda>x. map (\<lambda>y. (f x, g y)) ys) xs)"
    for f :: "nat \<Rightarrow> cint" and g :: "nat \<Rightarrow> cint" and xs ys
    by (induction xs) (simp_all add: comp_def)
  then show ?thesis
    by (simp add: iteration_space_def)
qed

lemma run_schedule_foldE:
  "run_schedule ws proj normalized_angles out num_rows orig_num_detectors num_cols s =
   foldE (\<lambda>z. sample_step proj normalized_angles out num_rows orig_num_detectors num_cols
       (fst (fst z)) (snd (fst z)) (snd z))
     (List.product ws (map of_nat [0..<nat (sint num_cols)])) s"
proof -
  have "run_schedule ws proj normalized_angles out num_rows orig_num_detectors num_cols s =
      foldE (\<lambda>ir. foldE (\<lambda>j. sample_step proj normalized_angles out num_rows orig_num_detectors
        num_cols (fst ir) (snd ir) j) (map of_nat [0..<nat (sint num_cols)])) ws s"
    unfolding run_schedule_def by (intro foldE_cong) (simp add: work_item_foldE)
  also have "\<dots> = foldE (\<lambda>z. sample_step proj normalized_angles out num_rows orig_num_detectors
      num_cols (fst (fst z)) (snd (fst z)) (snd z))
      (List.product ws (map of_nat [0..<nat (sint num_cols)])) s"
    by (simp flip: foldE_product)
  finally show ?thesis .
qed

lemma interpolation_loop_schedule:
  "interpolation_loop proj normalized_angles out num_proj num_rows orig_num_detectors num_cols s =
   run_schedule (iteration_space num_proj num_rows) proj normalized_angles out num_rows
     orig_num_detectors num_cols s"
proof -
  have "interpolation_loop proj normalized_angles out num_proj num_rows orig_num_detectors num_cols s =
      foldE (\<lambda>i. foldE (\<lambda>r. work_item proj normalized_angles out num_rows orig_num_detectors
        num_cols (i, r)) (map of_nat [0..<nat (sint num_rows)]))
        (map of_nat [0..<nat (sint num_proj)]) s"
    unfolding interpolation_loop_body for_loop_from_0
    by (intro foldE_cong) (simp_all add: work_item_def for_loop_from_0)
  also have "\<dots> = foldE (work_item proj normalized_angles out num_rows orig_num_detectors num_cols)
      (iteration_space num_proj num_rows) s"
    by (simp add: iteration_space_product flip: foldE_product)
  finally show ?thesis
    by (simp add: run_schedule_def)
qed

lemma spec_sample_cong:
  assumes "\<And>d. 0 \<le> d \<Longrightarrow> d < n \<Longrightarrow> row d = row' d" and "1 \<le> n"
  shows "spec_sample row n x = spec_sample row' n x"
  using assms by (simp add: spec_sample_def Let_def)

lemma sample_at_out_at:
  assumes "0 \<le> p * sint num_rows + r" and "0 \<le> j" and "j < sint num_cols"
  shows "sample_at proj normalized_angles out orig_num_detectors num_cols m
           (out_at out num_rows num_cols p r j) =
         spec_sample (\<lambda>d. m (proj_at proj num_rows orig_num_detectors p r d))
           (sint orig_num_detectors) (normalized_angles ! nat j)"
proof -
  define q where "q = p * sint num_rows + r"
  have "0 \<le> q * sint num_cols"
    using assms by (simp add: q_def)
  then have k: "int (out_at out num_rows num_cols p r j - base out) = q * sint num_cols + j"
    using assms by (simp add: out_at_def q_def)
  have "(q * sint num_cols + j) div sint num_cols = q" "(q * sint num_cols + j) mod sint num_cols = j"
    using assms by simp_all
  then show ?thesis
    by (simp add: sample_at_def k Let_def proj_at_def q_def)
qed

lemma iteration_space_set:
  "z \<in> set (iteration_space num_proj num_rows) \<longleftrightarrow>
   (\<exists>I r. z = (of_nat I, of_nat r) \<and> I < nat (sint num_proj) \<and> r < nat (sint num_rows))"
proof -
  have "set (iteration_space num_proj num_rows) =
      (\<Union>I\<in>{0..<nat (sint num_proj)}. (\<lambda>r. (of_nat I, of_nat r)) ` {0..<nat (sint num_rows)})"
    unfolding iteration_space_def set_concat set_map set_upt image_image ..
  then have "z \<in> set (iteration_space num_proj num_rows) \<longleftrightarrow>
      (\<exists>I\<in>{0..<nat (sint num_proj)}. \<exists>r\<in>{0..<nat (sint num_rows)}. z = (of_nat I, of_nat r))"
    by (simp only: UN_iff image_iff)
  also have "\<dots> \<longleftrightarrow>
      (\<exists>I r. z = (of_nat I, of_nat r) \<and> I < nat (sint num_proj) \<and> r < nat (sint num_rows))"
    unfolding Bex_def atLeastLessThan_iff by blast
  finally show ?thesis .
qed

lemma sint_of_nat_small: "int n < sint (b :: cint) \<Longrightarrow> sint (of_nat n :: cint) = int n"
  using sint_lt [of b] by (intro sint_eqI) simp_all


lemma run_interleaved_result:
  assumes valid: "valid_call proj normalized_angles out num_proj num_rows orig_num_detectors num_cols"
    and sep: "separate proj out num_proj num_rows orig_num_detectors num_cols"
    and zs: "set xs \<subseteq> set (iterations num_proj num_rows num_cols)"
  shows "run_interleaved xs proj normalized_angles out num_rows orig_num_detectors num_cols s =
     Inr (s\<lparr>mem := (\<lambda>a.
             if a \<in> store_address out num_rows num_cols ` set xs
             then sample_at proj normalized_angles out orig_num_detectors num_cols (mem s) a
             else mem s a),
           stores := stores s @ map (store_address out num_rows num_cols) xs\<rparr>)"
proof -
  define P R N C where "P = sint num_proj" and "R = sint num_rows"
    and "N = sint orig_num_detectors" and "C = sint num_cols"
  note defs = P_def R_def N_def C_def
  from valid have N1: "1 \<le> N" by (simp add: valid_call_def defs)
  have elem: "\<exists>I r j. z = ((of_nat I, of_nat r), of_nat j) \<and> int I < P \<and> int r < R \<and> int j < C"
    if "z \<in> set xs" for z
  proof -
    from that zs have "fst z \<in> set (iteration_space num_proj num_rows)"
      "snd z \<in> of_nat ` {0..<nat C}"
      unfolding iterations_def set_product set_map set_upt defs by auto
    then obtain ir j where z: "z = (ir, of_nat j)" "ir \<in> set (iteration_space num_proj num_rows)"
      "j < nat C"
      unfolding image_iff Bex_def atLeastLessThan_iff by (metis prod.collapse)
    then obtain I r where "ir = (of_nat I, of_nat r)" "I < nat P" "r < nat R"
      unfolding iteration_space_set defs by blast
    with z have "z = ((of_nat I, of_nat r), of_nat j) \<and> int I < P \<and> int r < R \<and> int j < C"
      by (simp add: zless_nat_eq_int_zless)
    then show ?thesis
      by blast
  qed
  have addr: "store_address out num_rows num_cols ((of_nat I, of_nat r), of_nat j) =
      out_at out num_rows num_cols (int I) (int r) (int j)"
    if "int I < P" "int r < R" "int j < C" for I r j
    using that by (simp add: store_address_def defs sint_of_nat_small)
  have q0: "0 \<le> int I * R + int r" if "int r < R" for I r
    using that by simp
  have step: "sample_step proj normalized_angles out num_rows orig_num_detectors num_cols
        (fst (fst z)) (snd (fst z)) (snd z) s' =
      Inr (s'\<lparr>mem := (mem s')(store_address out num_rows num_cols z :=
              sample_at proj normalized_angles out orig_num_detectors num_cols (mem s')
                (store_address out num_rows num_cols z)),
            stores := stores s' @ [store_address out num_rows num_cols z]\<rparr>)"
    if "z \<in> set xs" for z s'
  proof -
    from elem [OF that] obtain I r j where z: "z = ((of_nat I, of_nat r), of_nat j)"
      and b: "int I < P" "int r < R" "int j < C"
      by blast
    have "sample_at proj normalized_angles out orig_num_detectors num_cols (mem s')
        (out_at out num_rows num_cols (int I) (int r) (int j)) =
      spec_sample (\<lambda>d. mem s' (proj_at proj num_rows orig_num_detectors (int I) (int r) d))
        (sint orig_num_detectors) (normalized_angles ! j)"
      using b q0 [of r I] by (subst sample_at_out_at) (simp_all add: defs)
    then show ?thesis
      using b by (simp add: z addr sample_step_valid [OF valid] defs)
  qed
  have indep: "sample_at proj normalized_angles out orig_num_detectors num_cols
        (m(store_address out num_rows num_cols y := v)) (store_address out num_rows num_cols x) =
      sample_at proj normalized_angles out orig_num_detectors num_cols m
        (store_address out num_rows num_cols x)"
    if "x \<in> set xs" "y \<in> set xs" for x y m v
  proof -
    from elem [OF that(1)] obtain I r j where x: "x = ((of_nat I, of_nat r), of_nat j)"
      and b: "int I < P" "int r < R" "int j < C"
      by blast
    from elem [OF that(2)] obtain I' r' j' where y: "y = ((of_nat I', of_nat r'), of_nat j')"
      and b': "int I' < P" "int r' < R" "int j' < C"
      by blast
    define a' where "a' = out_at out num_rows num_cols (int I') (int r') (int j')"
    have a'1: "int (base out) \<le> int a'" and a'2: "int a' < int (base out) + P * R * C"
      using flat_index_bounds [of "int I'" P "int r'" R "int j'" C] b'
      by (simp_all add: a'_def out_at_def defs)
    have rd: "proj_at proj num_rows orig_num_detectors (int I) (int r) d \<noteq> a'"
      if "0 \<le> d" "d < N" for d
    proof -
      have "int (base proj) \<le> int (proj_at proj num_rows orig_num_detectors (int I) (int r) d)"
        "int (proj_at proj num_rows orig_num_detectors (int I) (int r) d) < int (base proj) + P * R * N"
        using flat_index_bounds [of "int I" P "int r" R d N] b that
        by (simp_all add: proj_at_def defs)
      with sep a'1 a'2 show ?thesis
        by (auto simp: separate_def defs)
    qed
    have "spec_sample (\<lambda>d. (m(a' := v)) (proj_at proj num_rows orig_num_detectors (int I) (int r) d))
          N (normalized_angles ! j) =
        spec_sample (\<lambda>d. m (proj_at proj num_rows orig_num_detectors (int I) (int r) d))
          N (normalized_angles ! j)"
      using rd N1 by (intro spec_sample_cong) simp_all
    then show ?thesis
      using b b' q0 [of r I]
      by (simp add: x y addr sample_at_out_at defs flip: a'_def)
  qed
  show ?thesis
    unfolding run_interleaved_def
    using foldE_writes [where xs = xs and addr = "store_address out num_rows num_cols"
        and g = "\<lambda>a m. sample_at proj normalized_angles out orig_num_detectors num_cols m a"
        and f = "\<lambda>z. sample_step proj normalized_angles out num_rows orig_num_detectors num_cols
          (fst (fst z)) (snd (fst z)) (snd z)" and s = s, OF step indep]
    by simp
qed

lemma run_schedule_result:
  assumes valid: "valid_call proj normalized_angles out num_proj num_rows orig_num_detectors num_cols"
    and sep: "separate proj out num_proj num_rows orig_num_detectors num_cols"
    and ws: "set ws \<subseteq> set (iteration_space num_proj num_rows)"
  shows "run_schedule ws proj normalized_angles out num_rows orig_num_detectors num_cols s =
     Inr (s\<lparr>mem := (\<lambda>a.
             if a \<in> store_address out num_rows num_cols `
                 set (List.product ws (map of_nat [0..<nat (sint num_cols)]))
             then sample_at proj normalized_angles out orig_num_detectors num_cols (mem s) a
             else mem s a),
           stores := stores s @ map (store_address out num_rows num_cols)
             (List.product ws (map of_nat [0..<nat (sint num_cols)]))\<rparr>)"
proof -
  have "set (List.product ws (map of_nat [0..<nat (sint num_cols)] :: cint list))
      \<subseteq> set (iterations num_proj num_rows num_cols)"
    using ws unfolding iterations_def set_product by blast
  from run_interleaved_result [OF valid sep this] show ?thesis
    by (simp only: run_schedule_foldE run_interleaved_def)
qed

lemma product_append: "List.product (xs @ ys) zs = List.product xs zs @ List.product ys zs"
  by (induction xs) simp_all

lemma product_map_map:
  "List.product (map f xs) (map g ys) = map (map_prod f g) (List.product xs ys)"
  by (induction xs) simp_all

lemma product_upt_flat: "map (\<lambda>(q, j). q * c + j) (List.product [0..<m] [0..<c]) = [0..<m * c]"
proof (induction m)
  case 0
  then show ?case by simp
next
  case (Suc m)
  have "map (\<lambda>(q, j). q * c + j) (map (Pair m) [0..<c]) = map (\<lambda>j. j + m * c) [0..<c]"
    by (simp add: add.commute)
  also have "\<dots> = [m * c..<c + m * c]"
    by (rule map_add_upt)
  finally have last: "map (\<lambda>(q, j). q * c + j) (map (Pair m) [0..<c]) = [m * c..<m * c + c]"
    by (simp add: add.commute)
  have "[0..<m * c + c] = [0..<m * c] @ [m * c..<m * c + c]"
    by (rule upt_add_eq_append) simp
  then show ?case
    using Suc.IH last by (simp add: product_append add.commute)
qed

lemma product_upt_flat3:
  "map (\<lambda>((I, r), j). (I * n + r) * c + j) (List.product (List.product [0..<m] [0..<n]) [0..<c]) =
   [0..<m * n * c]"
proof -
  have "map (\<lambda>((I, r), j). (I * n + r) * c + j) (List.product (List.product [0..<m] [0..<n]) [0..<c]) =
      map (\<lambda>(q, j). q * c + j)
        (List.product (map (\<lambda>(I, r). I * n + r) (List.product [0..<m] [0..<n])) (map id [0..<c]))"
    unfolding product_map_map by (simp add: case_prod_beta)
  also have "\<dots> = [0..<m * n * c]"
    by (simp add: product_upt_flat)
  finally show ?thesis .
qed

lemma store_addresses:
  assumes valid: "valid_call proj normalized_angles out num_proj num_rows orig_num_detectors num_cols"
  shows "map (store_address out num_rows num_cols)
           (List.product (iteration_space num_proj num_rows) (map of_nat [0..<nat (sint num_cols)])) =
         out_extent out num_proj num_rows num_cols"
proof -
  define P R C where "P = sint num_proj" and "R = sint num_rows" and "C = sint num_cols"
  note defs = P_def R_def C_def
  from valid have nn: "0 \<le> P" "0 \<le> R" "0 \<le> C"
    by (simp_all add: valid_call_def defs)
  define T where "T = List.product (List.product [0..<nat P] [0..<nat R]) [0..<nat C]"
  have 1: "List.product (iteration_space num_proj num_rows) (map of_nat [0..<nat C]) =
      map (map_prod (map_prod of_nat of_nat) of_nat) T"
    by (simp add: iteration_space_product product_map_map T_def defs)
  have 2: "store_address out num_rows num_cols (map_prod (map_prod of_nat of_nat) of_nat z) =
      base out + (case z of ((I, r), j) \<Rightarrow> (I * nat R + r) * nat C + j)" if "z \<in> set T" for z
  proof -
    obtain I r j where z: "z = ((I, r), j)"
      by (metis prod.collapse)
    with that have b: "int I < P" "int r < R" "int j < C"
      by (auto simp: T_def)
    have "nat ((int I * R + int r) * C + int j) = (I * nat R + r) * nat C + j"
      using nn by (simp add: nat_add_distrib nat_mult_distrib)
    then show ?thesis
      using b by (simp add: z store_address_def out_at_def sint_of_nat_small defs)
  qed
  have "map (store_address out num_rows num_cols)
      (List.product (iteration_space num_proj num_rows) (map of_nat [0..<nat C])) =
      map (\<lambda>z. base out + (case z of ((I, r), j) \<Rightarrow> (I * nat R + r) * nat C + j)) T"
    unfolding 1 map_map comp_def by (rule map_cong [OF refl]) (rule 2)
  also have "\<dots> = map (\<lambda>k. base out + k) (map (\<lambda>((I, r), j). (I * nat R + r) * nat C + j) T)"
    by (simp add: case_prod_beta)
  also have "map (\<lambda>((I, r), j). (I * nat R + r) * nat C + j) T = [0..<nat P * nat R * nat C]"
    unfolding T_def by (rule product_upt_flat3)
  finally show ?thesis
    by (simp add: out_extent_def defs)
qed

lemma out_extent_elem:
  assumes "a \<in> set (out_extent out num_proj num_rows num_cols)"
  obtains k where "a = base out + k" "int k < sint num_proj * sint num_rows * sint num_cols"
    "0 < sint num_proj" "0 < sint num_rows" "0 < sint num_cols"
proof -
  define k where "k = a - base out"
  from assms have k: "a = base out + k"
    "k < nat (sint num_proj) * nat (sint num_rows) * nat (sint num_cols)"
    by (auto simp: out_extent_def k_def)
  from k(2) have "0 < nat (sint num_proj) * nat (sint num_rows) * nat (sint num_cols)"
    by linarith
  then have pos: "0 < sint num_proj" "0 < sint num_rows" "0 < sint num_cols"
    by simp_all
  then have "int (nat (sint num_proj) * nat (sint num_rows) * nat (sint num_cols)) =
      sint num_proj * sint num_rows * sint num_cols"
    by simp
  with k have "int k < sint num_proj * sint num_rows * sint num_cols"
    by linarith
  with k(1) show ?thesis
    using pos by (rule that)
qed

lemma store_address_image:
  assumes "valid_call proj normalized_angles out num_proj num_rows orig_num_detectors num_cols"
    and "set ws = set (iteration_space num_proj num_rows)"
  shows "store_address out num_rows num_cols `
           set (List.product ws (map of_nat [0..<nat (sint num_cols)])) =
         set (out_extent out num_proj num_rows num_cols)"
proof -
  have "store_address out num_rows num_cols ` set (List.product ws (map of_nat [0..<nat (sint num_cols)])) =
      set (map (store_address out num_rows num_cols)
        (List.product (iteration_space num_proj num_rows) (map of_nat [0..<nat (sint num_cols)])))"
    unfolding set_map set_product assms(2) ..
  then show ?thesis
    by (simp only: store_addresses [OF assms(1)])
qed

lemma interpolation_loop_result:
  assumes valid: "valid_call proj normalized_angles out num_proj num_rows orig_num_detectors num_cols"
    and sep: "separate proj out num_proj num_rows orig_num_detectors num_cols"
  shows "interpolation_loop proj normalized_angles out num_proj num_rows orig_num_detectors num_cols s =
     Inr (s\<lparr>mem := (\<lambda>a.
             if a \<in> set (out_extent out num_proj num_rows num_cols)
             then sample_at proj normalized_angles out orig_num_detectors num_cols (mem s) a
             else mem s a),
           stores := stores s @ out_extent out num_proj num_rows num_cols\<rparr>)"
  unfolding interpolation_loop_schedule run_schedule_result [OF valid sep subset_refl]
    store_address_image [OF valid refl] store_addresses [OF valid] ..

lemma run_schedule_mem:
  assumes valid: "valid_call proj normalized_angles out num_proj num_rows orig_num_detectors num_cols"
    and sep: "separate proj out num_proj num_rows orig_num_detectors num_cols"
    and ws: "set ws = set (iteration_space num_proj num_rows)"
  shows "\<exists>s'. run_schedule ws proj normalized_angles out num_rows orig_num_detectors num_cols s = Inr s' \<and>
     mem s' = (\<lambda>a.
             if a \<in> set (out_extent out num_proj num_rows num_cols)
             then sample_at proj normalized_angles out orig_num_detectors num_cols (mem s) a
             else mem s a)"
proof -
  have "set ws \<subseteq> set (iteration_space num_proj num_rows)"
    using ws by simp
  from run_schedule_result [OF valid sep this] show ?thesis
    unfolding store_address_image [OF valid ws] by simp
qed

subsection \<open>Running the model on concrete inputs\<close>

lemma floor_rat_numerals [simp]:
  "\<lfloor>- 1 :: rat\<rfloor> = - 1"
  "\<lceil>- 1 :: rat\<rceil> = - 1"
  "\<lfloor>numeral a / numeral b :: rat\<rfloor> = numeral a div numeral b"
  "\<lfloor>- (numeral a / numeral b) :: rat\<rfloor> = - numeral a div numeral b"
  "\<lfloor>1 / numeral b :: rat\<rfloor> = 1 div numeral b"
  "\<lfloor>- (1 / numeral b) :: rat\<rfloor> = - 1 div numeral b"
proof -
  show "\<lfloor>- 1 :: rat\<rfloor> = - 1"
    using floor_of_int [of "- 1", where ?'a = rat] by simp
  show "\<lceil>- 1 :: rat\<rceil> = - 1"
    using ceiling_of_int [of "- 1", where ?'a = rat] by simp
  show "\<lfloor>numeral a / numeral b :: rat\<rfloor> = numeral a div numeral b"
    using floor_divide_of_int_eq [of "numeral a" "numeral b", where ?'a = rat] by simp
  show "\<lfloor>- (numeral a / numeral b) :: rat\<rfloor> = - numeral a div numeral b"
    using floor_divide_of_int_eq [of "- numeral a" "numeral b", where ?'a = rat] by simp
  show "\<lfloor>1 / numeral b :: rat\<rfloor> = 1 div numeral b"
    using floor_divide_of_int_eq [of 1 "numeral b", where ?'a = rat] by simp
  show "\<lfloor>- (1 / numeral b) :: rat\<rfloor> = - 1 div numeral b"
    using floor_divide_of_int_eq [of "- 1" "numeral b", where ?'a = rat] by simp
qed

lemma for_loop_step:
  "k <s n \<Longrightarrow> for_loop k n body s = bindE (body k s) (for_loop (k + 1) n body)"
  by (subst for_loop.simps) (simp add: bindE_def)

lemma for_loop_done: "\<not> k <s n \<Longrightarrow> for_loop k n body s = Inr s"
  by (subst for_loop.simps) simp

lemma contract_valid:
  assumes "data_model proj normalized_angles out num_proj num_rows orig_num_detectors num_cols"
    and "int_sized normalized_angles num_proj num_rows orig_num_detectors num_cols"
  shows "valid_call proj normalized_angles out num_proj num_rows orig_num_detectors num_cols"
    and "separate proj out num_proj num_rows orig_num_detectors num_cols"
  using assms by (simp_all add: data_model_def int_sized_def valid_call_def)

lemmas run_simps = for_loop_step for_loop_done word_sless_alt word_sle_eq
  load_double_def load_def store_def memory_def

lemma ilog2_eqI: "2 powi e \<le> \<bar>q\<bar> \<Longrightarrow> \<bar>q\<bar> < 2 powi (e + 1) \<Longrightarrow> ilog2 q = e"
proof -
  assume lo: "2 powi e \<le> \<bar>q\<bar>" and hi: "\<bar>q\<bar> < 2 powi (e + 1)"
  have "0 < (2::rat) powi e"
    by simp
  from this lo have "0 < \<bar>q\<bar>"
    by (rule less_le_trans)
  then have q: "q \<noteq> 0"
    by simp
  from ilog2_ge [OF q lo] ilog2_less [OF q hi] show ?thesis
    by simp
qed

lemma fp_round_dyadic:
  assumes n: "n \<noteq> 0" "\<bar>n\<bar> < 2 ^ prec fmt" and k: "emin fmt - int (prec fmt) + 1 \<le> k"
    and fin: "\<bar>of_int n * 2 powi k\<bar> < (2::rat) powi (emax fmt + 1)"
  shows "fp_round fmt (of_int n * 2 powi k) = Fin (of_int n * 2 powi k)"
proof -
  define q :: rat where "q = of_int n * 2 powi k"
  have q: "q \<noteq> 0"
    using n by (simp add: q_def)
  have "\<bar>rat_of_int n\<bar> < of_int (2 ^ prec fmt)"
    using n(2) by (simp only: of_int_less_iff flip: of_int_abs)
  then have "\<bar>q\<bar> < 2 ^ prec fmt * 2 powi k"
    by (simp add: q_def abs_mult)
  also have "\<dots> = 2 powi (k + int (prec fmt))"
    by (simp add: power_int_add)
  finally have "ilog2 q < k + int (prec fmt)"
    using q by (intro ilog2_less)
  with k have "quantum fmt q \<le> k"
    by (simp add: quantum_def)
  with q fin show ?thesis
    unfolding q_def [symmetric] by (intro fp_round_exact [where n = n and k = k]) (simp_all add: q_def)
qed

lemma example_roundings:
  "fp_round binary64 (1 / 2) = Fin (1 / 2)"
  "fp_round binary64 1 = Fin 1"
  "fp_round binary64 2 = Fin 2"
  "fp_round binary64 3 = Fin 3"
  "fp_round binary64 (3 / 2) = Fin (3 / 2)"
  "fp_round binary64 (5 / 2) = Fin (5 / 2)"
  "fp_round binary32 (5 / 2) = Fin (5 / 2)"
  using fp_round_dyadic [of 1 binary64 "- 1"] fp_round_dyadic [of 1 binary64 0]
    fp_round_dyadic [of 2 binary64 0] fp_round_dyadic [of 3 binary64 0]
    fp_round_dyadic [of 3 binary64 "- 1"] fp_round_dyadic [of 5 binary64 "- 1"]
    fp_round_dyadic [of 5 binary32 "- 1"]
  by (simp_all add: binary64_def binary32_def)

subsection \<open>The result of a call that meets the contract\<close>

lemma count_list_distinct: "distinct xs \<Longrightarrow> x \<in> set xs \<Longrightarrow> count_list xs x = 1"
  by (induction xs) auto

lemma out_extent_distinct: "distinct (out_extent out num_proj num_rows num_cols)"
  by (simp add: out_extent_def distinct_map)

lemma out_at_in_extent:
  assumes "0 \<le> p" "p < sint num_proj" "0 \<le> r" "r < sint num_rows" "0 \<le> j" "j < sint num_cols"
  shows "out_at out num_rows num_cols p r j \<in> set (out_extent out num_proj num_rows num_cols)"
proof -
  have "0 \<le> (p * sint num_rows + r) * sint num_cols + j"
    "(p * sint num_rows + r) * sint num_cols + j < sint num_proj * sint num_rows * sint num_cols"
    using flat_index_bounds [of p "sint num_proj" r "sint num_rows" j "sint num_cols"] assms
    by simp_all
  moreover have "nat (sint num_proj * sint num_rows * sint num_cols) =
      nat (sint num_proj) * nat (sint num_rows) * nat (sint num_cols)"
    using assms by (simp add: nat_mult_distrib)
  ultimately have "nat ((p * sint num_rows + r) * sint num_cols + j)
      \<in> {0..<nat (sint num_proj) * nat (sint num_rows) * nat (sint num_cols)}"
    by simp
  then show ?thesis
    unfolding out_extent_def out_at_def set_map set_upt by (rule imageI)
qed

lemma proj_at_not_in_extent:
  assumes sep: "separate proj out num_proj num_rows orig_num_detectors num_cols"
    and "0 \<le> p" "p < sint num_proj" "0 \<le> r" "r < sint num_rows"
      "0 \<le> d" "d < sint orig_num_detectors"
  shows "proj_at proj num_rows orig_num_detectors p r d \<notin> set (out_extent out num_proj num_rows num_cols)"
proof -
  have "0 \<le> (p * sint num_rows + r) * sint orig_num_detectors + d"
    "(p * sint num_rows + r) * sint orig_num_detectors + d
      < sint num_proj * sint num_rows * sint orig_num_detectors"
    using flat_index_bounds [of p "sint num_proj" r "sint num_rows" d "sint orig_num_detectors"] assms
    by simp_all
  with sep show ?thesis
    by (auto simp: proj_at_def separate_def elim!: out_extent_elem)
qed

lemma kernel_sample_value:
  assumes dm: "data_model proj normalized_angles out num_proj num_rows orig_num_detectors num_cols"
    and sz: "int_sized normalized_angles num_proj num_rows orig_num_detectors num_cols"
    and b: "0 \<le> p" "p < sint num_proj" "0 \<le> r" "r < sint num_rows" "0 \<le> j" "j < sint num_cols"
  shows "\<exists>s'. interpolation_loop proj normalized_angles out num_proj num_rows
             orig_num_detectors num_cols s = Inr s' \<and>
           mem s' (out_at out num_rows num_cols p r j) =
             spec_sample (\<lambda>d. mem s (proj_at proj num_rows orig_num_detectors p r d))
               (sint orig_num_detectors) (normalized_angles ! nat j)"
proof -
  have "0 \<le> p * sint num_rows + r"
    using b by simp
  then show ?thesis
    using b out_at_in_extent [OF b, of out]
    by (simp add: interpolation_loop_result [OF contract_valid [OF dm sz]] sample_at_out_at)
qed


subsection \<open>The per-sample algorithm\<close>

text \<open>
  C1 (amended). On a call that meets the data model, with at least one detector column,
  volumes of at most \<open>2^31 - 1\<close> elements and every position finite with a floor in the
  range of \<^verbatim>\<open>int\<close>: for every \<open>(p, r, j)\<close> in range, with \<open>x = normalized_angles[j]\<close>,
  \<open>idx = floor(x)\<close> and \<open>t = x - idx\<close> computed in \<^verbatim>\<open>double\<close>, the kernel returns and has
  written to \<^verbatim>\<open>out[p][r][j]\<close>: \<^verbatim>\<open>proj[p][r][0]\<close> if \<open>idx < 0\<close>; else
  \<^verbatim>\<open>proj[p][r][orig_num_detectors - 1]\<close> if \<open>idx \<ge> orig_num_detectors - 1\<close>; else the blend
  \<open>(1 - t) * proj[p][r][idx] + t * proj[p][r][idx + 1]\<close>, the two samples widened from
  \<^verbatim>\<open>float\<close> to \<^verbatim>\<open>double\<close>, the arithmetic in \<^verbatim>\<open>double\<close>, the result narrowed to \<^verbatim>\<open>float\<close>.
\<close>

theorem sample_written:
  assumes "data_model proj normalized_angles out num_proj num_rows orig_num_detectors num_cols"
    and "int_sized normalized_angles num_proj num_rows orig_num_detectors num_cols"
    and "0 \<le> p" "p < sint num_proj" "0 \<le> r" "r < sint num_rows" "0 \<le> j" "j < sint num_cols"
  shows "\<exists>s'. interpolation_loop proj normalized_angles out num_proj num_rows
             orig_num_detectors num_cols s = Inr s' \<and>
           mem s' (out_at out num_rows num_cols p r j) =
             (let x = normalized_angles ! nat j;
                  idx = \<lfloor>fp_val x\<rfloor>;
                  t = fp_sub binary64 x (Fin (of_int idx))
              in if idx < 0 then mem s (proj_at proj num_rows orig_num_detectors p r 0)
                 else if sint orig_num_detectors - 1 \<le> idx
                 then mem s (proj_at proj num_rows orig_num_detectors p r (sint orig_num_detectors - 1))
                 else fp_convert binary32
                   (fp_add binary64
                     (fp_mul binary64 (fp_sub binary64 (Fin 1) t)
                       (fp_convert binary64 (mem s (proj_at proj num_rows orig_num_detectors p r idx))))
                     (fp_mul binary64 t
                       (fp_convert binary64
                         (mem s (proj_at proj num_rows orig_num_detectors p r (idx + 1)))))))"
  using kernel_sample_value [OF assms] by (simp add: spec_sample_def Let_def)

theorem sample_written_witness:
  "data_model \<lparr>base = 0, len = 4\<rparr> [Fin (- (1 / 2)), Fin (3 / 2), Fin (7 / 2)] \<lparr>base = 4, len = 3\<rparr> 1 1 4 3 \<and>
   int_sized [Fin (- (1 / 2)), Fin (3 / 2), Fin (7 / 2)] 1 1 4 3 \<and>
   (\<exists>s'. interpolation_loop \<lparr>base = 0, len = 4\<rparr> [Fin (- (1 / 2)), Fin (3 / 2), Fin (7 / 2)]
      \<lparr>base = 4, len = 3\<rparr> 1 1 4 3 (memory [Fin 1, Fin 2, Fin 3, Fin 4]) = Inr s' \<and>
      mem s' 5 = Fin (5 / 2))"
  using sample_written [of "\<lparr>base = 0, len = 4\<rparr>" "[Fin (- (1 / 2)), Fin (3 / 2), Fin (7 / 2)]"
      "\<lparr>base = 4, len = 3\<rparr>" 1 1 4 3 0 0 1 "memory [Fin 1, Fin 2, Fin 3, Fin 4]"]
  by (simp add: data_model_def int_sized_def separate_def convertible_def out_at_def proj_at_def
      memory_def fp_sub_def fp_mul_def example_roundings)

theorem sample_written_counterexample:
  "data_model \<lparr>base = 0, len = 2\<rparr> [Fin 10000000000] \<lparr>base = 2, len = 1\<rparr> 1 1 2 1 \<and>
   sint (2 :: cint) - 1 \<le> \<lfloor>fp_val (Fin 10000000000)\<rfloor> \<and>
   interpolation_loop \<lparr>base = 0, len = 2\<rparr> [Fin 10000000000] \<lparr>base = 2, len = 1\<rparr> 1 1 2 1
     (memory [Fin 1, Fin 2, NaN]) = Inl UndefinedConversion \<and>
   data_model \<lparr>base = 0, len = 3 * 2 ^ 30\<rparr> [Fin (- 1)] \<lparr>base = 3 * 2 ^ 30, len = 3\<rparr> 1 3 (2 ^ 30) 1 \<and>
   interpolation_loop \<lparr>base = 0, len = 3 * 2 ^ 30\<rparr> [Fin (- 1)] \<lparr>base = 3 * 2 ^ 30, len = 3\<rparr>
     1 3 (2 ^ 30) 1 (memory [Fin 1]) = Inl OutOfBounds \<and>
   data_model \<lparr>base = 0, len = 0\<rparr> [Fin (- 1)] \<lparr>base = 0, len = 1\<rparr> 1 1 0 1 \<and>
   interpolation_loop \<lparr>base = 0, len = 0\<rparr> [Fin (- 1)] \<lparr>base = 0, len = 1\<rparr> 1 1 0 1 (memory [NaN])
     = Inl OutOfBounds"
  by (simp add: data_model_def separate_def interpolation_loop_def run_simps)

subsection \<open>Clamping at the detector edges\<close>

text \<open>
  C3 (amended). On a call that meets the data model, with at least one detector column,
  volumes of at most \<open>2^31 - 1\<close> elements and every position finite with a floor in the
  range of \<^verbatim>\<open>int\<close>: for every \<open>p\<close>, \<open>r\<close> and every \<open>j\<close> with \<open>normalized_angles[j] < 0\<close>,
  \<^verbatim>\<open>out[p][r][j]\<close> is \<^verbatim>\<open>proj[p][r][0]\<close>, and for every \<open>j\<close> with
  \<open>normalized_angles[j] \<ge> orig_num_detectors - 1\<close> it is
  \<^verbatim>\<open>proj[p][r][orig_num_detectors - 1]\<close>.
\<close>

theorem edge_clamp:
  assumes "data_model proj normalized_angles out num_proj num_rows orig_num_detectors num_cols"
    and "int_sized normalized_angles num_proj num_rows orig_num_detectors num_cols"
    and "0 \<le> p" "p < sint num_proj" "0 \<le> r" "r < sint num_rows" "0 \<le> j" "j < sint num_cols"
  shows "\<exists>s'. interpolation_loop proj normalized_angles out num_proj num_rows
             orig_num_detectors num_cols s = Inr s' \<and>
           (fp_val (normalized_angles ! nat j) < 0 \<longrightarrow>
              mem s' (out_at out num_rows num_cols p r j) =
              mem s (proj_at proj num_rows orig_num_detectors p r 0)) \<and>
           (of_int (sint orig_num_detectors - 1) \<le> fp_val (normalized_angles ! nat j) \<longrightarrow>
              mem s' (out_at out num_rows num_cols p r j) =
              mem s (proj_at proj num_rows orig_num_detectors p r (sint orig_num_detectors - 1)))"
proof -
  from kernel_sample_value [OF assms] obtain s'
    where s': "interpolation_loop proj normalized_angles out num_proj num_rows
        orig_num_detectors num_cols s = Inr s'"
      "mem s' (out_at out num_rows num_cols p r j) =
        spec_sample (\<lambda>d. mem s (proj_at proj num_rows orig_num_detectors p r d))
          (sint orig_num_detectors) (normalized_angles ! nat j)"
    by blast
  have "1 \<le> sint orig_num_detectors"
    using assms(2) by (simp add: int_sized_def)
  then have "\<not> of_int (sint orig_num_detectors - 1) \<le> fp_val (normalized_angles ! nat j)"
    if "fp_val (normalized_angles ! nat j) < 0"
    using that by (simp add: not_le del: of_int_diff)
  then show ?thesis
    using s' by (auto simp: spec_sample_def Let_def le_floor_iff)
qed

theorem edge_clamp_witness:
  "data_model \<lparr>base = 0, len = 4\<rparr> [Fin (- (1 / 2)), Fin (3 / 2), Fin (7 / 2)] \<lparr>base = 4, len = 3\<rparr> 1 1 4 3 \<and>
   int_sized [Fin (- (1 / 2)), Fin (3 / 2), Fin (7 / 2)] 1 1 4 3 \<and>
   of_int (sint (4 :: cint) - 1) \<le> fp_val ([Fin (- (1 / 2)), Fin (3 / 2), Fin (7 / 2)] ! nat 2) \<and>
   (\<exists>s'. interpolation_loop \<lparr>base = 0, len = 4\<rparr> [Fin (- (1 / 2)), Fin (3 / 2), Fin (7 / 2)]
      \<lparr>base = 4, len = 3\<rparr> 1 1 4 3 (memory [Fin 1, Fin 2, Fin 3, Fin 4]) = Inr s' \<and>
      mem s' 6 = Fin 4)"
  using edge_clamp [of "\<lparr>base = 0, len = 4\<rparr>" "[Fin (- (1 / 2)), Fin (3 / 2), Fin (7 / 2)]"
      "\<lparr>base = 4, len = 3\<rparr>" 1 1 4 3 0 0 2 "memory [Fin 1, Fin 2, Fin 3, Fin 4]"]
  by (simp add: data_model_def int_sized_def separate_def convertible_def out_at_def proj_at_def
      memory_def)

theorem edge_clamp_counterexample:
  "data_model \<lparr>base = 0, len = 2\<rparr> [Fin (2 ^ 31)] \<lparr>base = 2, len = 1\<rparr> 1 1 2 1 \<and>
   of_int (sint (2 :: cint) - 1) \<le> fp_val (Fin (2 ^ 31)) \<and>
   interpolation_loop \<lparr>base = 0, len = 2\<rparr> [Fin (2 ^ 31)] \<lparr>base = 2, len = 1\<rparr> 1 1 2 1
     (memory [Fin 1, Fin 2, NaN]) = Inl UndefinedConversion \<and>
   data_model \<lparr>base = 0, len = 3 * 2 ^ 30\<rparr> [Fin (- 2)] \<lparr>base = 3 * 2 ^ 30, len = 3\<rparr> 1 3 (2 ^ 30) 1 \<and>
   fp_val (Fin (- 2)) < 0 \<and>
   interpolation_loop \<lparr>base = 0, len = 3 * 2 ^ 30\<rparr> [Fin (- 2)] \<lparr>base = 3 * 2 ^ 30, len = 3\<rparr>
     1 3 (2 ^ 30) 1 (memory [Fin 1]) = Inl OutOfBounds \<and>
   data_model \<lparr>base = 0, len = 0\<rparr> [Fin (- 2)] \<lparr>base = 0, len = 1\<rparr> 1 1 0 1 \<and>
   interpolation_loop \<lparr>base = 0, len = 0\<rparr> [Fin (- 2)] \<lparr>base = 0, len = 1\<rparr> 1 1 0 1 (memory [NaN])
     = Inl OutOfBounds"
  by (simp add: data_model_def separate_def interpolation_loop_def run_simps)

subsection \<open>Totality\<close>

text \<open>
  C2 (amended). For every input that satisfies the data-model invariants (the extents are
  sizes, the buffers hold the extents, \<open>normalized_angles\<close> has \<open>num_cols\<close> entries, the
  extents of \<^verbatim>\<open>proj\<close> and \<^verbatim>\<open>out\<close> do not overlap) and, besides, has
  \<open>orig_num_detectors \<ge> 1\<close>, both volume sizes at most \<open>2^31 - 1\<close>, and every position
  finite with \<open>- 2^31 \<le> floor(x) < 2^31\<close>, the kernel never fails: it returns, and every
  read and write it performs is within bounds (an access out of bounds or an undefined
  conversion is a fault of the model, and the call returns none).
\<close>

theorem kernel_total:
  assumes "data_model proj normalized_angles out num_proj num_rows orig_num_detectors num_cols"
    and "int_sized normalized_angles num_proj num_rows orig_num_detectors num_cols"
  shows "\<exists>s'. interpolation_loop proj normalized_angles out num_proj num_rows
           orig_num_detectors num_cols s = Inr s'"
  using interpolation_loop_result [OF contract_valid [OF assms]] by simp

theorem kernel_total_witness:
  "data_model \<lparr>base = 0, len = 4\<rparr> [Fin (- (1 / 2)), Fin (3 / 2), Fin (7 / 2)] \<lparr>base = 4, len = 3\<rparr> 1 1 4 3 \<and>
   int_sized [Fin (- (1 / 2)), Fin (3 / 2), Fin (7 / 2)] 1 1 4 3 \<and>
   (\<exists>s'. interpolation_loop \<lparr>base = 0, len = 4\<rparr> [Fin (- (1 / 2)), Fin (3 / 2), Fin (7 / 2)]
      \<lparr>base = 4, len = 3\<rparr> 1 1 4 3 (memory [Fin 1, Fin 2, Fin 3, Fin 4]) = Inr s')"
  using kernel_total [of "\<lparr>base = 0, len = 4\<rparr>" "[Fin (- (1 / 2)), Fin (3 / 2), Fin (7 / 2)]"
      "\<lparr>base = 4, len = 3\<rparr>" 1 1 4 3 "memory [Fin 1, Fin 2, Fin 3, Fin 4]"]
  by (simp add: data_model_def int_sized_def separate_def convertible_def)

theorem kernel_total_counterexample:
  "data_model \<lparr>base = 0, len = 0\<rparr> [Fin 0] \<lparr>base = 0, len = 1\<rparr> 1 1 0 1 \<and>
   interpolation_loop \<lparr>base = 0, len = 0\<rparr> [Fin 0] \<lparr>base = 0, len = 1\<rparr> 1 1 0 1 (memory [NaN])
     = Inl OutOfBounds \<and>
   data_model \<lparr>base = 0, len = 1\<rparr> [NaN] \<lparr>base = 1, len = 1\<rparr> 1 1 1 1 \<and>
   interpolation_loop \<lparr>base = 0, len = 1\<rparr> [NaN] \<lparr>base = 1, len = 1\<rparr> 1 1 1 1 (memory [Fin 1, NaN])
     = Inl UndefinedConversion \<and>
   data_model \<lparr>base = 0, len = 3 * 2 ^ 30\<rparr> [Fin (- 1)] \<lparr>base = 3 * 2 ^ 30, len = 3\<rparr> 1 3 (2 ^ 30) 1 \<and>
   interpolation_loop \<lparr>base = 0, len = 3 * 2 ^ 30\<rparr> [Fin (- 1)] \<lparr>base = 3 * 2 ^ 30, len = 3\<rparr>
     1 3 (2 ^ 30) 1 (memory []) = Inl OutOfBounds"
  by (simp add: data_model_def separate_def interpolation_loop_def run_simps)

subsection \<open>Independence of the schedule\<close>

lemma sample_at_frame:
  assumes valid: "valid_call proj normalized_angles out num_proj num_rows orig_num_detectors num_cols"
    and sep: "separate proj out num_proj num_rows orig_num_detectors num_cols"
    and a: "a \<in> set (out_extent out num_proj num_rows num_cols)"
    and same: "\<And>b. b \<notin> set (out_extent out num_proj num_rows num_cols) \<Longrightarrow> m' b = m b"
  shows "sample_at proj normalized_angles out orig_num_detectors num_cols m' a =
         sample_at proj normalized_angles out orig_num_detectors num_cols m a"
proof -
  define P R N C where "P = sint num_proj" and "R = sint num_rows"
    and "N = sint orig_num_detectors" and "C = sint num_cols"
  note defs = P_def R_def N_def C_def
  from valid have nn: "0 \<le> P" "0 \<le> R" "0 \<le> C" "1 \<le> N"
    by (simp_all add: valid_call_def defs)
  from a obtain k where k: "a = base out + k" "int k < P * R * C"
    unfolding defs by (rule out_extent_elem)
  define q where "q = int k div C"
  have C: "0 < C"
    using k nn by (cases "C = 0") simp_all
  have q0: "0 \<le> q"
    using C by (simp add: q_def pos_imp_zdiv_nonneg_iff)
  have qPR: "q < P * R"
  proof (rule ccontr)
    assume "\<not> q < P * R"
    then have "P * R * C \<le> q * C"
      using C by (intro mult_right_mono) simp_all
    also have "\<dots> \<le> q * C + int k mod C"
      using C by simp
    also have "\<dots> = int k"
      by (simp add: q_def)
    finally show False
      using k by simp
  qed
  have rd: "base proj + nat (q * N + d) \<notin> set (out_extent out num_proj num_rows num_cols)"
    if "0 \<le> d" "d < N" for d
  proof -
    have "(q + 1) * N \<le> P * R * N"
      using qPR nn by (intro mult_right_mono) simp_all
    then have "q * N + d < P * R * N"
      using that by (simp add: algebra_simps)
    moreover have "0 \<le> q * N + d"
      using q0 nn that by simp
    ultimately show ?thesis
      using sep by (auto simp: separate_def defs elim!: out_extent_elem)
  qed
  have "spec_sample (\<lambda>d. m' (base proj + nat (q * N + d))) N x =
      spec_sample (\<lambda>d. m (base proj + nat (q * N + d))) N x" for x
    using rd nn by (intro spec_sample_cong same) simp_all
  then show ?thesis
    by (simp add: sample_at_def Let_def k q_def defs)
qed

lemma run_interleaved_mem:
  assumes valid: "valid_call proj normalized_angles out num_proj num_rows orig_num_detectors num_cols"
    and sep: "separate proj out num_proj num_rows orig_num_detectors num_cols"
    and zs: "set zs = set (iterations num_proj num_rows num_cols)"
  shows "\<exists>s'. run_interleaved zs proj normalized_angles out num_rows orig_num_detectors num_cols s = Inr s' \<and>
     mem s' = (\<lambda>a.
             if a \<in> set (out_extent out num_proj num_rows num_cols)
             then sample_at proj normalized_angles out orig_num_detectors num_cols (mem s) a
             else mem s a)"
proof -
  have "set zs \<subseteq> set (iterations num_proj num_rows num_cols)"
    using zs by simp
  moreover have "store_address out num_rows num_cols ` set zs =
      set (out_extent out num_proj num_rows num_cols)"
    unfolding zs iterations_def by (rule store_address_image [OF valid refl])
  ultimately show ?thesis
    using run_interleaved_result [OF valid sep, of zs s] by simp
qed

text \<open>
  C5 (amended). The kernel is a function of its inputs: the model has no state besides the
  memory it is given. On a call that meets the data model (in particular, the extents of
  \<^verbatim>\<open>proj\<close> and \<^verbatim>\<open>out\<close> do not overlap), with at least one detector column, volumes of at
  most \<open>2^31 - 1\<close> elements and every position finite with a floor in the range of
  \<^verbatim>\<open>int\<close>: running the work items \<open>(p, r)\<close> in the order of any schedule (each item
  once, in any order, as the threads of the team take them) leaves the same memory as
  the sequential loops; so does any interleaving of the executions of the loop body; a
  second call on the result leaves that memory again; and a call on any other memory that
  holds the same contents of \<^verbatim>\<open>proj\<close> leaves the same contents in \<^verbatim>\<open>out\<close>, whatever \<^verbatim>\<open>out\<close>
  and the rest of the memory held before.

  Without these conditions the claim fails. When \<^verbatim>\<open>out\<close> overlaps \<^verbatim>\<open>proj\<close>, a work item
  reads what another one has written, and two schedules leave two different contents in
  \<^verbatim>\<open>out\<close>. With a NaN position the conversion to \<^verbatim>\<open>int\<close> is undefined, and with no
  detector column the clamp reads \<^verbatim>\<open>proj[-1]\<close>, a cell that is none of the inputs: the
  call has no result that the inputs determine.
\<close>

theorem schedule_independent:
  assumes "data_model proj normalized_angles out num_proj num_rows orig_num_detectors num_cols"
    and "int_sized normalized_angles num_proj num_rows orig_num_detectors num_cols"
    and "is_schedule ws num_proj num_rows"
    and "is_interleaving zs num_proj num_rows num_cols"
  shows "\<exists>s' s\<^sub>1 s\<^sub>2 s\<^sub>3.
           interpolation_loop proj normalized_angles out num_proj num_rows
             orig_num_detectors num_cols s = Inr s' \<and>
           run_schedule ws proj normalized_angles out num_rows orig_num_detectors num_cols s = Inr s\<^sub>1 \<and>
           mem s\<^sub>1 = mem s' \<and>
           run_interleaved zs proj normalized_angles out num_rows orig_num_detectors num_cols s = Inr s\<^sub>2 \<and>
           mem s\<^sub>2 = mem s' \<and>
           interpolation_loop proj normalized_angles out num_proj num_rows
             orig_num_detectors num_cols s' = Inr s\<^sub>3 \<and>
           mem s\<^sub>3 = mem s' \<and>
           (\<forall>t. (\<forall>p r d. 0 \<le> p \<and> p < sint num_proj \<and> 0 \<le> r \<and> r < sint num_rows \<and>
                   0 \<le> d \<and> d < sint orig_num_detectors \<longrightarrow>
                   mem t (proj_at proj num_rows orig_num_detectors p r d) =
                   mem s (proj_at proj num_rows orig_num_detectors p r d)) \<longrightarrow>
              (\<exists>t'. interpolation_loop proj normalized_angles out num_proj num_rows
                       orig_num_detectors num_cols t = Inr t' \<and>
                     (\<forall>p r j. 0 \<le> p \<and> p < sint num_proj \<and> 0 \<le> r \<and> r < sint num_rows \<and>
                        0 \<le> j \<and> j < sint num_cols \<longrightarrow>
                        mem t' (out_at out num_rows num_cols p r j) =
                        mem s' (out_at out num_rows num_cols p r j))))"
proof -
  note valid = contract_valid [OF assms(1,2)]
  have ws: "set ws = set (iteration_space num_proj num_rows)"
    using assms(3) by (simp add: is_schedule_def)
  have zs: "set zs = set (iterations num_proj num_rows num_cols)"
    using assms(4) by (simp add: is_interleaving_def)
  define m' where "m' = (\<lambda>a. if a \<in> set (out_extent out num_proj num_rows num_cols)
     then sample_at proj normalized_angles out orig_num_detectors num_cols (mem s) a else mem s a)"
  have "sample_at proj normalized_angles out orig_num_detectors num_cols m' a =
      sample_at proj normalized_angles out orig_num_detectors num_cols (mem s) a"
    if "a \<in> set (out_extent out num_proj num_rows num_cols)" for a
    using valid that by (rule sample_at_frame) (simp add: m'_def)
  then have again: "(\<lambda>a. if a \<in> set (out_extent out num_proj num_rows num_cols)
     then sample_at proj normalized_angles out orig_num_detectors num_cols m' a else m' a) = m'"
    by (auto simp: m'_def)
  from run_schedule_mem [OF valid ws] obtain s\<^sub>1
    where s1: "run_schedule ws proj normalized_angles out num_rows orig_num_detectors num_cols s = Inr s\<^sub>1"
      "mem s\<^sub>1 = m'"
    unfolding m'_def by blast
  from run_interleaved_mem [OF valid zs] obtain s\<^sub>2
    where s2: "run_interleaved zs proj normalized_angles out num_rows orig_num_detectors num_cols s = Inr s\<^sub>2"
      "mem s\<^sub>2 = m'"
    unfolding m'_def by blast
  define s' where "s' = s\<lparr>mem := m', stores := stores s @ out_extent out num_proj num_rows num_cols\<rparr>"
  have run: "interpolation_loop proj normalized_angles out num_proj num_rows
      orig_num_detectors num_cols s = Inr s'"
    unfolding m'_def s'_def by (rule interpolation_loop_result [OF valid])
  have ms': "mem s' = m'"
    by (simp add: s'_def)
  have s3: "interpolation_loop proj normalized_angles out num_proj num_rows
      orig_num_detectors num_cols s' =
      Inr (s'\<lparr>mem := m', stores := stores s' @ out_extent out num_proj num_rows num_cols\<rparr>)"
    unfolding interpolation_loop_result [OF valid] ms' again ..
  have other: "\<exists>t'. interpolation_loop proj normalized_angles out num_proj num_rows
        orig_num_detectors num_cols t = Inr t' \<and>
      (\<forall>p r j. 0 \<le> p \<and> p < sint num_proj \<and> 0 \<le> r \<and> r < sint num_rows \<and>
         0 \<le> j \<and> j < sint num_cols \<longrightarrow>
         mem t' (out_at out num_rows num_cols p r j) = mem s' (out_at out num_rows num_cols p r j))"
    if same: "\<forall>p r d. 0 \<le> p \<and> p < sint num_proj \<and> 0 \<le> r \<and> r < sint num_rows \<and>
        0 \<le> d \<and> d < sint orig_num_detectors \<longrightarrow>
        mem t (proj_at proj num_rows orig_num_detectors p r d) =
        mem s (proj_at proj num_rows orig_num_detectors p r d)"
    for t
  proof -
    from interpolation_loop_result [OF valid, of t] obtain t'
      where run_t: "interpolation_loop proj normalized_angles out num_proj num_rows
        orig_num_detectors num_cols t = Inr t'"
      by blast
    have n: "1 \<le> sint orig_num_detectors"
      using assms(2) by (simp add: int_sized_def)
    have "mem t' (out_at out num_rows num_cols p r j) = mem s' (out_at out num_rows num_cols p r j)"
      if b: "0 \<le> p" "p < sint num_proj" "0 \<le> r" "r < sint num_rows" "0 \<le> j" "j < sint num_cols"
      for p r j
    proof -
      have "mem t' (out_at out num_rows num_cols p r j) =
          spec_sample (\<lambda>d. mem t (proj_at proj num_rows orig_num_detectors p r d))
            (sint orig_num_detectors) (normalized_angles ! nat j)"
        using kernel_sample_value [OF assms(1,2) b, of t] run_t by simp
      also have "\<dots> = spec_sample (\<lambda>d. mem s (proj_at proj num_rows orig_num_detectors p r d))
            (sint orig_num_detectors) (normalized_angles ! nat j)"
        using same b n by (intro spec_sample_cong) simp_all
      also have "\<dots> = mem s' (out_at out num_rows num_cols p r j)"
        using kernel_sample_value [OF assms(1,2) b, of s] run by simp
      finally show ?thesis .
    qed
    with run_t show ?thesis
      by blast
  qed
  from run s1 s2 s3 ms' other show ?thesis
    by simp
qed

theorem schedule_independent_witness:
  "data_model \<lparr>base = 0, len = 4\<rparr> [Fin (- 1), Fin 5] \<lparr>base = 4, len = 4\<rparr> 1 2 2 2 \<and>
   int_sized [Fin (- 1), Fin 5] 1 2 2 2 \<and>
   is_schedule [(0, 1), (0, 0)] 1 2 \<and>
   is_interleaving [((0, 1), 0), ((0, 0), 0), ((0, 0), 1), ((0, 1), 1)] 1 2 2 \<and>
   (\<exists>s' s\<^sub>1 s\<^sub>2 t'.
      interpolation_loop \<lparr>base = 0, len = 4\<rparr> [Fin (- 1), Fin 5] \<lparr>base = 4, len = 4\<rparr> 1 2 2 2
        (memory [Fin 1, Fin 2, Fin 3, Fin 4]) = Inr s' \<and>
      run_schedule [(0, 1), (0, 0)] \<lparr>base = 0, len = 4\<rparr> [Fin (- 1), Fin 5] \<lparr>base = 4, len = 4\<rparr> 2 2 2
        (memory [Fin 1, Fin 2, Fin 3, Fin 4]) = Inr s\<^sub>1 \<and>
      mem s\<^sub>1 = mem s' \<and>
      run_interleaved [((0, 1), 0), ((0, 0), 0), ((0, 0), 1), ((0, 1), 1)]
        \<lparr>base = 0, len = 4\<rparr> [Fin (- 1), Fin 5] \<lparr>base = 4, len = 4\<rparr> 2 2 2
        (memory [Fin 1, Fin 2, Fin 3, Fin 4]) = Inr s\<^sub>2 \<and>
      mem s\<^sub>2 = mem s' \<and>
      interpolation_loop \<lparr>base = 0, len = 4\<rparr> [Fin (- 1), Fin 5] \<lparr>base = 4, len = 4\<rparr> 1 2 2 2
        (memory [Fin 1, Fin 2, Fin 3, Fin 4, Fin 7, Fin 7, Fin 7, Fin 7, Fin 9]) = Inr t' \<and>
      mem t' 4 = mem s' 4 \<and> mem t' 5 = mem s' 5 \<and> mem t' 6 = mem s' 6 \<and> mem t' 7 = mem s' 7)"
proof -
  let ?proj = "\<lparr>base = 0, len = 4\<rparr>" and ?out = "\<lparr>base = 4, len = 4\<rparr>"
  let ?angles = "[Fin (- 1), Fin 5]"
  let ?ws = "[(0, 1), (0, 0)] :: (cint \<times> cint) list"
  let ?zs = "[((0, 1), 0), ((0, 0), 0), ((0, 0), 1), ((0, 1), 1)] :: ((cint \<times> cint) \<times> cint) list"
  let ?s = "memory [Fin 1, Fin 2, Fin 3, Fin 4]"
  let ?t = "memory [Fin 1, Fin 2, Fin 3, Fin 4, Fin 7, Fin 7, Fin 7, Fin 7, Fin 9]"
  have sp: "iteration_space 1 2 = [(0, 0), (0, 1)]"
    by (simp add: iteration_space_def upt_rec)
  have it: "iterations 1 2 2 = [((0, 0), 0), ((0, 0), 1), ((0, 1), 0), ((0, 1), 1)]"
    by (simp add: iterations_def sp upt_rec)
  have dm: "data_model ?proj ?angles ?out 1 2 2 2" and sz: "int_sized ?angles 1 2 2 2"
    by (simp_all add: data_model_def int_sized_def separate_def convertible_def)
  have ws: "is_schedule ?ws 1 2" and zs: "is_interleaving ?zs 1 2 2"
    by (auto simp: is_schedule_def is_interleaving_def sp it)
  from schedule_independent [OF dm sz ws zs, of ?s]
  obtain s' s\<^sub>1 s\<^sub>2 where run: "interpolation_loop ?proj ?angles ?out 1 2 2 2 ?s = Inr s'"
    and s1: "run_schedule ?ws ?proj ?angles ?out 2 2 2 ?s = Inr s\<^sub>1" "mem s\<^sub>1 = mem s'"
    and s2: "run_interleaved ?zs ?proj ?angles ?out 2 2 2 ?s = Inr s\<^sub>2" "mem s\<^sub>2 = mem s'"
    and other: "\<And>t. (\<forall>p r d. 0 \<le> p \<and> p < sint (1 :: cint) \<and> 0 \<le> r \<and> r < sint (2 :: cint) \<and>
          0 \<le> d \<and> d < sint (2 :: cint) \<longrightarrow>
          mem t (proj_at ?proj 2 2 p r d) = mem ?s (proj_at ?proj 2 2 p r d)) \<Longrightarrow>
        \<exists>t'. interpolation_loop ?proj ?angles ?out 1 2 2 2 t = Inr t' \<and>
          (\<forall>p r j. 0 \<le> p \<and> p < sint (1 :: cint) \<and> 0 \<le> r \<and> r < sint (2 :: cint) \<and>
             0 \<le> j \<and> j < sint (2 :: cint) \<longrightarrow>
             mem t' (out_at ?out 2 2 p r j) = mem s' (out_at ?out 2 2 p r j))"
    by blast
  have "\<forall>p r d. 0 \<le> p \<and> p < sint (1 :: cint) \<and> 0 \<le> r \<and> r < sint (2 :: cint) \<and>
      0 \<le> d \<and> d < sint (2 :: cint) \<longrightarrow>
      mem ?t (proj_at ?proj 2 2 p r d) = mem ?s (proj_at ?proj 2 2 p r d)"
  proof (intro allI impI)
    fix p r d :: int
    assume "0 \<le> p \<and> p < sint (1 :: cint) \<and> 0 \<le> r \<and> r < sint (2 :: cint) \<and>
      0 \<le> d \<and> d < sint (2 :: cint)"
    then have "p = 0" "r = 0 \<or> r = 1" "d = 0 \<or> d = 1"
      by auto
    then show "mem ?t (proj_at ?proj 2 2 p r d) = mem ?s (proj_at ?proj 2 2 p r d)"
      by (auto simp: proj_at_def memory_def)
  qed
  from other [OF this] obtain t' where run_t: "interpolation_loop ?proj ?angles ?out 1 2 2 2 ?t = Inr t'"
    and eq: "\<And>p r j. 0 \<le> p \<and> p < sint (1 :: cint) \<and> 0 \<le> r \<and> r < sint (2 :: cint) \<and>
        0 \<le> j \<and> j < sint (2 :: cint) \<Longrightarrow>
      mem t' (out_at ?out 2 2 p r j) = mem s' (out_at ?out 2 2 p r j)"
    by blast
  from eq [of 0 0 0] eq [of 0 0 1] eq [of 0 1 0] eq [of 0 1 1]
  have "mem t' 4 = mem s' 4" "mem t' 5 = mem s' 5" "mem t' 6 = mem s' 6" "mem t' 7 = mem s' 7"
    by (simp_all add: out_at_def)
  with dm sz ws zs run s1 s2 run_t show ?thesis
    by blast
qed

theorem schedule_independent_counterexample:
  "is_schedule [(0, 1), (0, 0)] 1 2 \<and>
   cell_after 2 (interpolation_loop \<lparr>base = 0, len = 2\<rparr> [Fin 0] \<lparr>base = 1, len = 2\<rparr> 1 2 1 1
     (memory [Fin 1, Fin 2, Fin 3])) = Inr (Fin 1) \<and>
   cell_after 2 (run_schedule [(0, 1), (0, 0)] \<lparr>base = 0, len = 2\<rparr> [Fin 0] \<lparr>base = 1, len = 2\<rparr> 2 1 1
     (memory [Fin 1, Fin 2, Fin 3])) = Inr (Fin 2) \<and>
   data_model \<lparr>base = 0, len = 1\<rparr> [NaN] \<lparr>base = 1, len = 1\<rparr> 1 1 1 1 \<and>
   interpolation_loop \<lparr>base = 0, len = 1\<rparr> [NaN] \<lparr>base = 1, len = 1\<rparr> 1 1 1 1 (memory [Fin 1, NaN])
     = Inl UndefinedConversion \<and>
   data_model \<lparr>base = 0, len = 0\<rparr> [Fin 0] \<lparr>base = 0, len = 1\<rparr> 1 1 0 1 \<and>
   interpolation_loop \<lparr>base = 0, len = 0\<rparr> [Fin 0] \<lparr>base = 0, len = 1\<rparr> 1 1 0 1 (memory [NaN])
     = Inl OutOfBounds"
proof -
  have sp: "iteration_space 1 2 = [(0, 0), (0, 1)]"
    by (simp add: iteration_space_def upt_rec)
  have "is_schedule [(0, 1), (0, 0)] 1 2"
    by (auto simp: is_schedule_def sp)
  then show ?thesis
    by (simp add: data_model_def separate_def interpolation_loop_def
      run_schedule_def work_item_def sample_step_def
      run_simps cell_after_def int_to_double_exact fp_sub_def)
qed

subsection \<open>The offsets are computed in \<^verbatim>\<open>int\<close>\<close>

lemma offsets_cases:
  fixes num_proj num_rows orig_num_detectors num_cols :: cint
  defines "P \<equiv> sint num_proj" and "R \<equiv> sint num_rows"
    and "N \<equiv> sint orig_num_detectors" and "C \<equiv> sint num_cols"
  assumes "0 \<le> p" "p < P" "0 \<le> r" "r < R"
  shows "P * R * N \<le> 2 ^ 31 - 1 \<longrightarrow>
           (\<forall>d. 0 \<le> d \<and> d < N \<longrightarrow>
              sint (proj_offset (word_of_int p) (word_of_int r) num_rows orig_num_detectors
                + word_of_int d) = (p * R + r) * N + d \<and>
              sint (proj_offset (word_of_int p) (word_of_int r) num_rows orig_num_detectors
                + orig_num_detectors) = (p * R + r) * N + N)"
    and "P * R * C \<le> 2 ^ 31 \<longrightarrow>
           (\<forall>j. 0 \<le> j \<and> j < C \<longrightarrow>
              sint (out_offset (word_of_int p) (word_of_int r) num_rows num_cols
                + word_of_int j) = (p * R + r) * C + j)"
    and "2 ^ 31 - 1 < P * R * N \<and> p = P - 1 \<and> r = R - 1 \<longrightarrow>
           sint (proj_offset (word_of_int p) (word_of_int r) num_rows orig_num_detectors
             + orig_num_detectors) \<noteq> (p * R + r) * N + N"
    and "2 ^ 31 < P * R * C \<and> p = P - 1 \<and> r = R - 1 \<longrightarrow>
           sint (out_offset (word_of_int p) (word_of_int r) num_rows num_cols
             + word_of_int (C - 1)) \<noteq> (p * R + r) * C + (C - 1)"
proof -
  show "P * R * N \<le> 2 ^ 31 - 1 \<longrightarrow>
           (\<forall>d. 0 \<le> d \<and> d < N \<longrightarrow>
              sint (proj_offset (word_of_int p) (word_of_int r) num_rows orig_num_detectors
                + word_of_int d) = (p * R + r) * N + d \<and>
              sint (proj_offset (word_of_int p) (word_of_int r) num_rows orig_num_detectors
                + orig_num_detectors) = (p * R + r) * N + N)"
  proof (intro impI allI, elim conjE)
    fix d
    assume lim: "P * R * N \<le> 2 ^ 31 - 1" and d: "0 \<le> d" "d < N"
    have b: "0 \<le> (p * R + r) * N + d" "(p * R + r) * N + d < P * R * N"
      using flat_index_bounds [of p P r R d N] assms d by simp_all
    have b': "0 \<le> (p * R + r) * N + (N - 1)" "(p * R + r) * N + (N - 1) < P * R * N"
      using flat_index_bounds [of p P r R "N - 1" N] assms d by simp_all
    have "sint (proj_offset (word_of_int p) (word_of_int r) num_rows orig_num_detectors
        + word_of_int d) = (p * R + r) * N + d"
      using b lim by (intro sint_eqI) (simp_all add: proj_offset_def P_def R_def N_def)
    moreover have "sint (proj_offset (word_of_int p) (word_of_int r) num_rows orig_num_detectors
        + orig_num_detectors) = (p * R + r) * N + N"
      using b' lim by (intro sint_eqI) (simp_all add: proj_offset_def P_def R_def N_def)
    ultimately show "sint (proj_offset (word_of_int p) (word_of_int r) num_rows orig_num_detectors
        + word_of_int d) = (p * R + r) * N + d \<and>
      sint (proj_offset (word_of_int p) (word_of_int r) num_rows orig_num_detectors
        + orig_num_detectors) = (p * R + r) * N + N"
      by simp
  qed
  show "P * R * C \<le> 2 ^ 31 \<longrightarrow>
           (\<forall>j. 0 \<le> j \<and> j < C \<longrightarrow>
              sint (out_offset (word_of_int p) (word_of_int r) num_rows num_cols
                + word_of_int j) = (p * R + r) * C + j)"
  proof (intro impI allI, elim conjE)
    fix j
    assume lim: "P * R * C \<le> 2 ^ 31" and j: "0 \<le> j" "j < C"
    have b: "0 \<le> (p * R + r) * C + j" "(p * R + r) * C + j < P * R * C"
      using flat_index_bounds [of p P r R j C] assms j by simp_all
    show "sint (out_offset (word_of_int p) (word_of_int r) num_rows num_cols
        + word_of_int j) = (p * R + r) * C + j"
      using b lim by (intro sint_eqI) (simp_all add: out_offset_def P_def R_def C_def)
  qed
  have eq: "((P - 1) * R + (R - 1)) * M + M = P * R * M" for M :: int
    by (simp add: algebra_simps)
  show "2 ^ 31 - 1 < P * R * N \<and> p = P - 1 \<and> r = R - 1 \<longrightarrow>
           sint (proj_offset (word_of_int p) (word_of_int r) num_rows orig_num_detectors
             + orig_num_detectors) \<noteq> (p * R + r) * N + N"
    using sint_lt [of "proj_offset (word_of_int p) (word_of_int r) num_rows orig_num_detectors
             + orig_num_detectors"] by (auto simp: eq)
  have eq': "((P - 1) * R + (R - 1)) * C + (C - 1) = P * R * C - 1"
    by (simp add: algebra_simps)
  show "2 ^ 31 < P * R * C \<and> p = P - 1 \<and> r = R - 1 \<longrightarrow>
           sint (out_offset (word_of_int p) (word_of_int r) num_rows num_cols
             + word_of_int (C - 1)) \<noteq> (p * R + r) * C + (C - 1)"
    using sint_lt [of "out_offset (word_of_int p) (word_of_int r) num_rows num_cols
             + word_of_int (C - 1)"] by (auto simp: eq')
qed

text \<open>
  C10 (amended). The row offsets \<open>(i * num_rows + r) * orig_num_detectors\<close> and
  \<open>(i * num_rows + r) * num_cols\<close> and the element offsets derived from them are computed
  in 32-bit signed arithmetic. For extents that are sizes:
  if \<open>num_proj * num_rows * orig_num_detectors \<le> 2^31 - 1\<close>, every offset into \<^verbatim>\<open>proj\<close>,
  and the sum \<open>proj_offset + orig_num_detectors\<close> that the right clamp forms on the way,
  is the index of the stated element;
  if \<open>num_proj * num_rows * num_cols \<le> 2^31\<close>, every offset into \<^verbatim>\<open>out\<close> is the index of
  the stated element;
  beyond these limits the computation wraps: with
  \<open>num_proj * num_rows * orig_num_detectors > 2^31 - 1\<close> the sum
  \<open>proj_offset + orig_num_detectors\<close> of the last row is not the mathematical one, and with
  \<open>num_proj * num_rows * num_cols > 2^31\<close> the offset of the last element of \<^verbatim>\<open>out\<close> is not
  its index.
\<close>

theorem offsets_in_int:
  fixes num_proj num_rows orig_num_detectors num_cols :: cint
  assumes "0 \<le> p" "p < sint num_proj" "0 \<le> r" "r < sint num_rows"
  shows "(sint num_proj * sint num_rows * sint orig_num_detectors \<le> 2 ^ 31 - 1 \<longrightarrow>
           (\<forall>d. 0 \<le> d \<and> d < sint orig_num_detectors \<longrightarrow>
              sint (proj_offset (word_of_int p) (word_of_int r) num_rows orig_num_detectors
                + word_of_int d) = (p * sint num_rows + r) * sint orig_num_detectors + d \<and>
              sint (proj_offset (word_of_int p) (word_of_int r) num_rows orig_num_detectors
                + orig_num_detectors) =
                (p * sint num_rows + r) * sint orig_num_detectors + sint orig_num_detectors)) \<and>
         (sint num_proj * sint num_rows * sint num_cols \<le> 2 ^ 31 \<longrightarrow>
           (\<forall>j. 0 \<le> j \<and> j < sint num_cols \<longrightarrow>
              sint (out_offset (word_of_int p) (word_of_int r) num_rows num_cols
                + word_of_int j) = (p * sint num_rows + r) * sint num_cols + j)) \<and>
         (2 ^ 31 - 1 < sint num_proj * sint num_rows * sint orig_num_detectors \<and>
           p = sint num_proj - 1 \<and> r = sint num_rows - 1 \<longrightarrow>
           sint (proj_offset (word_of_int p) (word_of_int r) num_rows orig_num_detectors
             + orig_num_detectors) \<noteq>
             (p * sint num_rows + r) * sint orig_num_detectors + sint orig_num_detectors) \<and>
         (2 ^ 31 < sint num_proj * sint num_rows * sint num_cols \<and>
           p = sint num_proj - 1 \<and> r = sint num_rows - 1 \<longrightarrow>
           sint (out_offset (word_of_int p) (word_of_int r) num_rows num_cols
             + word_of_int (sint num_cols - 1)) \<noteq>
             (p * sint num_rows + r) * sint num_cols + (sint num_cols - 1))"
  by (intro conjI) (rule offsets_cases [OF assms])+

theorem offsets_in_int_witness:
  "sint (proj_offset 0 0 1 4 + 3 :: cint) = 3 \<and>
   sint (out_offset 0 0 1 3 + 2 :: cint) = 2 \<and>
   sint (proj_offset 0 2 3 (2 ^ 30) + 2 ^ 30 :: cint) \<noteq> (0 * 3 + 2) * 2 ^ 30 + 2 ^ 30 \<and>
   sint (out_offset 0 2 3 (2 ^ 30) + (2 ^ 30 - 1) :: cint) \<noteq> (0 * 3 + 2) * 2 ^ 30 + (2 ^ 30 - 1)"
  using offsets_in_int [of 0 1 0 1 4 3, THEN conjunct1, rule_format, where d = 3]
    offsets_in_int [of 0 1 0 1 4 3, THEN conjunct2, THEN conjunct1, rule_format, where j = 2]
    offsets_in_int [of 0 1 2 3 "2 ^ 30" "2 ^ 30"]
  by simp

theorem offsets_in_int_counterexample:
  "2 ^ 31 - 1 < sint (2048 :: cint) * sint (1024 :: cint) * sint (1024 :: cint) \<and>
   sint (out_offset 2047 1023 1024 1024 + 1023 :: cint) =
     (2047 * sint (1024 :: cint) + 1023) * sint (1024 :: cint) + 1023"
  by (simp add: out_offset_def)

subsection \<open>The fraction \<open>t\<close>\<close>

lemma sample_step_position:
  "sample_step proj normalized_angles out num_rows orig_num_detectors num_cols i r j s =
     bindE (load_double normalized_angles j) (\<lambda>x.
       case position x of
         None \<Rightarrow> Inl UndefinedConversion
       | Some (idx, t) \<Rightarrow>
           if idx <s 0 then
             bindE (load proj ((i * num_rows + r) * orig_num_detectors) s) (\<lambda>v.
             store out ((i * num_rows + r) * num_cols + j) v s)
           else if orig_num_detectors - 1 \<le>s idx then
             bindE (load proj ((i * num_rows + r) * orig_num_detectors + orig_num_detectors - 1) s) (\<lambda>v.
             store out ((i * num_rows + r) * num_cols + j) v s)
           else
             bindE (load proj ((i * num_rows + r) * orig_num_detectors + idx) s) (\<lambda>v0.
             bindE (load proj ((i * num_rows + r) * orig_num_detectors + idx + 1) s) (\<lambda>v1.
             store out ((i * num_rows + r) * num_cols + j)
               (fp_convert binary32
                 (fp_add binary64
                   (fp_mul binary64 (fp_sub binary64 (Fin 1) t) (fp_convert binary64 v0))
                   (fp_mul binary64 t (fp_convert binary64 v1)))) s)))"
  by (cases "double_to_int (c_floor (case load_double normalized_angles j of Inr x \<Rightarrow> x))";
      cases "load_double normalized_angles j")
    (simp_all add: sample_step_def position_def Let_def)

lemma fp_round_range:
  assumes q: "q \<noteq> 0" and B: "B = of_int m * 2 powi k" and k: "quantum fmt q \<le> k"
    and le: "\<bar>q\<bar> \<le> B" and fin: "B < 2 powi (emax fmt + 1)"
  shows "is_finite (fp_round fmt q) \<and> \<bar>fp_val (fp_round fmt q)\<bar> \<le> B
    \<and> (0 \<le> q \<longrightarrow> 0 \<le> fp_val (fp_round fmt q)) \<and> (q \<le> 0 \<longrightarrow> fp_val (fp_round fmt q) \<le> 0)"
proof -
  define u :: rat where "u = 2 powi quantum fmt q"
  define M where "M = m * 2 ^ nat (k - quantum fmt q)"
  define n where "n = rint_even (q / u)"
  have u: "0 < u"
    by (simp add: u_def)
  have "(2::rat) powi k = u * 2 powi (k - quantum fmt q)"
    by (simp add: u_def flip: power_int_add)
  also have "2 powi (k - quantum fmt q) = (2::rat) ^ nat (k - quantum fmt q)"
    using k by (simp add: power_int_nonneg_exp)
  finally have BM: "B = of_int M * u"
    by (simp add: B M_def)
  have "- B \<le> q" "q \<le> B"
    using le by simp_all
  then have "of_int (- M) \<le> q / u" "q / u \<le> of_int M"
    using u by (simp_all add: BM field_simps)
  then have nM: "- M \<le> n" "n \<le> M"
    unfolding n_def by (simp_all add: rint_even_ge rint_even_le)
  then have "\<bar>n\<bar> \<le> M"
    by simp
  then have "\<bar>rat_of_int n\<bar> \<le> of_int M"
    by (simp only: of_int_le_iff flip: of_int_abs)
  then have "\<bar>of_int n * u\<bar> \<le> of_int M * u"
    using u by (simp add: abs_mult)
  then have r: "\<bar>of_int n * u\<bar> \<le> B"
    by (simp add: BM)
  have pos: "0 \<le> n" if "0 \<le> q"
    unfolding n_def using that u by (intro rint_even_ge) simp
  have neg: "n \<le> 0" if "q \<le> 0"
    unfolding n_def using that u by (intro rint_even_le) (simp add: divide_nonpos_pos)
  have fr: "fp_round fmt q = (if of_int n * u = 0 then (if q < 0 then NZero else Fin 0) else Fin (of_int n * u))"
    using q r fin by (simp add: fp_round_def Let_def flip: u_def n_def)
  show ?thesis
    using r pos neg u by (auto simp: fr zero_le_mult_iff mult_le_0_iff)
qed


lemma fp_add_finite:
  "is_finite a \<Longrightarrow> is_finite b \<Longrightarrow>
   fp_add fmt a b =
     (if fp_val a + fp_val b = 0 then (if signbit a \<and> signbit b then NZero else Fin 0)
      else fp_round fmt (fp_val a + fp_val b))"
  by (cases a; cases b) (simp_all add: Let_def)

lemma fp_neg_finite [simp]: "is_finite (fp_neg a) = is_finite a" "fp_val (fp_neg a) = - fp_val a"
  by (cases a; simp)+

lemma quantum_mono: "q \<noteq> 0 \<Longrightarrow> \<bar>q\<bar> \<le> \<bar>q'\<bar> \<Longrightarrow> quantum fmt q \<le> quantum fmt q'"
  using ilog2_mono [of q q'] by (simp add: quantum_def)

lemma position_convertible:
  assumes "convertible x"
  shows "position x =
    Some (word_of_int \<lfloor>fp_val x\<rfloor>, fp_sub binary64 x (Fin (of_int \<lfloor>fp_val x\<rfloor>)))"
proof -
  from assms obtain idx where idx: "double_to_int (c_floor x) = Some idx"
    by (auto simp: convertible_def)
  then have s: "sint idx = \<lfloor>fp_val x\<rfloor>"
    by (rule double_to_int_floor)
  then have "idx = word_of_int \<lfloor>fp_val x\<rfloor>"
    by (simp flip: s)
  moreover have "int_to_double idx = Fin (of_int \<lfloor>fp_val x\<rfloor>)"
    by (simp only: int_to_double_exact s)
  ultimately show ?thesis
    using idx by (simp add: position_def)
qed

lemma fraction_closed:
  assumes "is_finite x"
  defines "f \<equiv> fp_val x - of_int \<lfloor>fp_val x\<rfloor>"
  defines "t \<equiv> fp_sub binary64 x (Fin (of_int \<lfloor>fp_val x\<rfloor>))"
  shows "is_finite t" "0 \<le> fp_val t" "fp_val t \<le> 1"
    and "f = 0 \<Longrightarrow> fp_val t = 0"
    and "f \<noteq> 0 \<Longrightarrow> t = fp_round binary64 f"
proof -
  have f: "0 \<le> f" "f < 1"
    unfolding f_def by linarith+
  have t: "t = (if f = 0 then (if signbit x \<and> signbit (fp_neg (Fin (of_int \<lfloor>fp_val x\<rfloor>))) then NZero else Fin 0)
      else fp_round binary64 f)"
    unfolding t_def fp_sub_def using assms(1)
    by (subst fp_add_finite) (simp_all add: f_def del: fp_neg.simps)
  show "f = 0 \<Longrightarrow> fp_val t = 0" and "f \<noteq> 0 \<Longrightarrow> t = fp_round binary64 f"
    by (simp_all add: t)
  have "is_finite t \<and> 0 \<le> fp_val t \<and> fp_val t \<le> 1"
  proof (cases "f = 0")
    case True
    then show ?thesis
      by (simp add: t)
  next
    case False
    with f have "\<bar>f\<bar> < 2 powi 0"
      by simp
    with False have "ilog2 f < 0"
      by (rule ilog2_less)
    then have "quantum binary64 f \<le> 0"
      by (simp add: quantum_def binary64_def)
    with False have "is_finite (fp_round binary64 f) \<and> \<bar>fp_val (fp_round binary64 f)\<bar> \<le> 1
      \<and> (0 \<le> f \<longrightarrow> 0 \<le> fp_val (fp_round binary64 f))
      \<and> (f \<le> 0 \<longrightarrow> fp_val (fp_round binary64 f) \<le> 0)"
      using f by (intro fp_round_range [where m = 1 and k = 0]) (simp_all add: binary64_def)
    with False f show ?thesis
      by (auto simp: t)
  qed
  then show "is_finite t" "0 \<le> fp_val t" "fp_val t \<le> 1"
    by simp_all
qed

lemma fraction_exact:
  assumes rep: "fp_round binary64 q = Fin q" and q: "0 \<le> q"
  defines "f \<equiv> q - of_int \<lfloor>q\<rfloor>"
  assumes f: "f \<noteq> 0"
  shows "fp_round binary64 f = Fin f"
proof -
  define k where "k = quantum binary64 q"
  define n where "n = rint_even (q / 2 powi k)"
  have f01: "0 \<le> f" "f < 1"
    unfolding f_def by linarith+
  have q0: "q \<noteq> 0"
    using f by (auto simp: f_def)
  from fp_round_form(1) [OF q0 rep] have form: "q = of_int n * 2 powi k"
    by (simp add: n_def k_def)
  have k: "k < 0"
  proof (rule ccontr)
    assume "\<not> k < 0"
    then have "q = of_int (n * 2 ^ nat k)"
      by (simp add: form power_int_nonneg_exp)
    then have "f = 0"
      unfolding f_def by (simp only: floor_of_int)
    with f show False
      by simp
  qed
  then have "(2::rat) powi (- k) = 2 ^ nat (- k)"
    by (simp add: power_int_nonneg_exp)
  moreover have "(2::rat) powi (- k) * 2 powi k = 2 powi (- k + k)"
    by (rule power_int_add [symmetric]) simp
  ultimately have one: "2 ^ nat (- k) * 2 powi k = (1::rat)"
    by simp
  have "rat_of_int (\<lfloor>q\<rfloor> * 2 ^ nat (- k)) * 2 powi k = of_int \<lfloor>q\<rfloor> * (2 ^ nat (- k) * 2 powi k)"
    by (simp add: mult.assoc)
  then have "rat_of_int \<lfloor>q\<rfloor> = of_int (\<lfloor>q\<rfloor> * 2 ^ nat (- k)) * 2 powi k"
    by (simp only: one mult_1_right)
  then have "f = of_int (n - \<lfloor>q\<rfloor> * 2 ^ nat (- k)) * 2 powi k"
    unfolding f_def by (subst form) (simp add: algebra_simps)
  moreover have "\<bar>f\<bar> \<le> \<bar>q\<bar>"
    using f01 q by (simp add: f_def)
  then have "quantum binary64 f \<le> k"
    unfolding k_def using f by (intro quantum_mono)
  moreover have "\<bar>f\<bar> < 2 powi (emax binary64 + 1)"
  proof -
    have "\<bar>f\<bar> < 1"
      using f01 by simp
    also have "1 \<le> (2::rat) powi (emax binary64 + 1)"
      by (intro one_le_power_int) (simp_all add: binary64_def)
    finally show ?thesis .
  qed
  ultimately show ?thesis
    using f by (intro fp_round_exact)
qed

text \<open>
  C8 (amended). For every position \<open>x\<close> that is finite with \<open>- 2^31 \<le> floor(x) < 2^31\<close>, the
  kernel obtains the index \<open>idx = floor(x)\<close> and a fraction \<open>t = x - idx\<close> that lies in the
  closed interval \<open>[0, 1]\<close>. If moreover \<open>x\<close> is a \<^verbatim>\<open>double\<close> with \<open>x \<ge> 0\<close>, as every position
  that reaches the interpolation is, then \<open>t\<close> is exactly \<open>x - floor(x)\<close> and lies in the
  half-open interval \<open>[0, 1)\<close>.
\<close>

theorem fraction_range:
  assumes "convertible x"
  shows "\<exists>idx t. position x = Some (idx, t) \<and> sint idx = \<lfloor>fp_val x\<rfloor> \<and>
           is_finite t \<and> 0 \<le> fp_val t \<and> fp_val t \<le> 1 \<and>
           (representable binary64 x \<and> 0 \<le> fp_val x \<longrightarrow>
              fp_val t = fp_val x - of_int \<lfloor>fp_val x\<rfloor> \<and> fp_val t < 1)"
proof -
  define t where "t = fp_sub binary64 x (Fin (of_int \<lfloor>fp_val x\<rfloor>))"
  define f where "f = fp_val x - of_int \<lfloor>fp_val x\<rfloor>"
  from assms have fin: "is_finite x" and range: "- (2 ^ 31) \<le> \<lfloor>fp_val x\<rfloor>" "\<lfloor>fp_val x\<rfloor> < 2 ^ 31"
    by (simp_all add: convertible_iff)
  have pos: "position x = Some (word_of_int \<lfloor>fp_val x\<rfloor>, t)"
    unfolding t_def using assms by (rule position_convertible)
  have idx: "sint (word_of_int \<lfloor>fp_val x\<rfloor> :: cint) = \<lfloor>fp_val x\<rfloor>"
    using range by (intro sint_eqI) simp_all
  note closed = fraction_closed [OF fin, folded t_def f_def]
  have f01: "0 \<le> f" "f < 1"
    unfolding f_def by linarith+
  have "fp_val t = f" if "representable binary64 x" "0 \<le> fp_val x"
  proof (cases "f = 0")
    case True
    then show ?thesis
      using closed(4) by simp
  next
    case False
    then have "fp_val x \<noteq> 0"
      by (auto simp: f_def)
    then obtain q where x: "x = Fin q"
      by (cases x) simp_all
    with that have "fp_round binary64 q = Fin q" "0 \<le> q"
      by simp_all
    then have "fp_round binary64 f = Fin f"
      using False unfolding f_def x fp_val.simps by (rule fraction_exact)
    with closed(5) [OF False] show ?thesis
      by simp
  qed
  with pos idx closed(1-3) f01 show ?thesis
    by (auto simp: f_def)
qed

theorem fraction_range_witness:
  "convertible (Fin (3 / 2)) \<and> representable binary64 (Fin (3 / 2)) \<and> 0 \<le> fp_val (Fin (3 / 2)) \<and>
   (\<exists>idx t. position (Fin (3 / 2)) = Some (idx, t) \<and> sint idx = 1 \<and> fp_val t = 1 / 2)"
  using fraction_range [of "Fin (3 / 2)"]
  by (auto simp: convertible_def example_roundings)

theorem fraction_range_counterexample:
  "representable binary64 (Fin (- (1 / 2 ^ 60))) \<and>
   position (Fin (- (1 / 2 ^ 60))) = Some (- 1, Fin 1) \<and> \<not> fp_val (Fin 1) < 1"
proof -
  have "fp_round binary64 (- (1 / 2 ^ 60)) = Fin (- (1 / 2 ^ 60))"
    using fp_round_dyadic [of "- 1" binary64 "- 60"] by (simp add: binary64_def)
  moreover have "fp_round binary64 (1 - 1 / 2 ^ 60) = Fin 1"
    by (simp add: fp_round_def quantum_def ilog2_eqI [of "- 1"] rint_even_def Let_def binary64_def)
  ultimately show ?thesis
    by (simp add: position_def int_to_double_exact fp_sub_def)
qed

subsection \<open>The identity mapping\<close>

lemma fp_round_0 [simp]: "fp_round fmt 0 = Fin 0"
  by (simp add: fp_round_def)

lemma widen_exact:
  assumes "fp_round binary32 q = Fin q"
  shows "fp_round binary64 q = Fin q"
proof (cases "q = 0")
  case True
  then show ?thesis by simp
next
  case False
  from fp_round_form [OF False assms]
  have form: "q = of_int (rint_even (q / 2 powi quantum binary32 q)) * 2 powi quantum binary32 q"
    and fin: "\<bar>q\<bar> < 2 powi (emax binary32 + 1)"
    by simp_all
  have "quantum binary64 q \<le> quantum binary32 q"
    by (simp add: quantum_def binary32_def binary64_def max_def)
  moreover have "(2::rat) powi (emax binary32 + 1) \<le> 2 powi (emax binary64 + 1)"
    by (intro power_int_increasing) (simp_all add: binary32_def binary64_def)
  with fin have "\<bar>q\<bar> < 2 powi (emax binary64 + 1)"
    by simp
  ultimately show ?thesis
    using False form by (intro fp_round_exact [where n = "rint_even (q / 2 powi quantum binary32 q)"])
qed

lemma fp_convert_float:
  "representable binary32 v \<Longrightarrow> fp_convert binary64 v = v"
  "representable binary32 v \<Longrightarrow> fp_convert binary32 v = v"
  by (cases v; simp add: widen_exact)+

lemma fp_mul_one:
  assumes "is_finite v" "representable binary64 v"
  shows "fp_mul binary64 (Fin 1) v = v"
  using assms by (cases v) (auto simp: fp_mul_def)

lemma fp_mul_zero:
  assumes "is_finite v"
  shows "fp_mul binary64 (Fin 0) v = (if signbit v then NZero else Fin 0)"
  using assms by (cases v) (auto simp: fp_mul_def)

lemma fp_sub_self: "0 \<le> a \<Longrightarrow> fp_sub binary64 (Fin a) (Fin a) = Fin 0"
  by (simp add: fp_sub_def)

lemma fp_sub_one_zero: "fp_sub binary64 (Fin 1) (Fin 0) = Fin 1"
  by (simp add: fp_sub_def example_roundings)

lemma blend_identity:
  assumes v0: "is_finite v0" "representable binary32 v0"
    and v1: "is_finite v1" "representable binary32 v1"
  defines "b \<equiv> fp_convert binary32
      (fp_add binary64
        (fp_mul binary64 (Fin 1) (fp_convert binary64 v0))
        (fp_mul binary64 (Fin 0) (fp_convert binary64 v1)))"
  shows "b = v0 \<or> (v0 = NZero \<and> b = Fin 0)"
proof -
  have r64: "representable binary64 v0"
    using v0(2) by (cases v0) (simp_all add: widen_exact)
  have b: "b = fp_convert binary32 (fp_add binary64 v0 (if signbit v1 then NZero else Fin 0))"
    unfolding b_def using v0 v1 r64 by (simp add: fp_convert_float fp_mul_one fp_mul_zero)
  show ?thesis
  proof (cases v0)
    case (Fin q)
    with v0 r64 show ?thesis
      by (auto simp: b)
  qed (use v0 in \<open>auto simp: b\<close>)
qed


lemma spec_sample_identity:
  assumes j: "0 \<le> j" "j < n"
    and row: "\<And>d. 0 \<le> d \<Longrightarrow> d < n \<Longrightarrow> is_finite (row d) \<and> representable binary32 (row d)"
  shows "spec_sample row n (Fin (of_int j)) = row j \<or>
    row j = NZero \<and> spec_sample row n (Fin (of_int j)) = Fin 0"
proof (cases "n - 1 \<le> j")
  case True
  then have "j = n - 1"
    using j by simp
  then show ?thesis
    using j by (simp add: spec_sample_def Let_def)
next
  case False
  then have "is_finite (row j)" "representable binary32 (row j)"
    "is_finite (row (j + 1))" "representable binary32 (row (j + 1))"
    using j row [of j] row [of "j + 1"] by simp_all
  from blend_identity [OF this] False j show ?thesis
    by (simp add: spec_sample_def Let_def fp_sub_self fp_sub_one_zero)
qed

text \<open>
  C4 (amended). If \<open>num_cols = orig_num_detectors\<close> and \<open>normalized_angles[j] = j\<close> exactly for
  every \<open>j\<close>, the call is within the contract and the elements of the row \<^verbatim>\<open>proj[p][r]\<close> are
  finite \<^verbatim>\<open>float\<close> values (no infinity, no NaN), then after the call \<^verbatim>\<open>out[p][r][j]\<close> is
  \<^verbatim>\<open>proj[p][r][j]\<close>, bit for bit, except that a negative zero may have become the positive
  zero.
\<close>

theorem identity_mapping:
  assumes "data_model proj normalized_angles out num_proj num_rows orig_num_detectors num_cols"
    and "int_sized normalized_angles num_proj num_rows orig_num_detectors num_cols"
    and "sint num_cols = sint orig_num_detectors"
    and "\<forall>j. 0 \<le> j \<and> j < sint num_cols \<longrightarrow> normalized_angles ! nat j = Fin (of_int j)"
    and "0 \<le> p" "p < sint num_proj" "0 \<le> r" "r < sint num_rows" "0 \<le> j" "j < sint num_cols"
    and "\<forall>d. 0 \<le> d \<and> d < sint orig_num_detectors \<longrightarrow>
           is_finite (mem s (proj_at proj num_rows orig_num_detectors p r d)) \<and>
           representable binary32 (mem s (proj_at proj num_rows orig_num_detectors p r d))"
  shows "\<exists>s'. interpolation_loop proj normalized_angles out num_proj num_rows
             orig_num_detectors num_cols s = Inr s' \<and>
           (mem s' (out_at out num_rows num_cols p r j) =
              mem s (proj_at proj num_rows orig_num_detectors p r j) \<or>
            mem s (proj_at proj num_rows orig_num_detectors p r j) = NZero \<and>
              mem s' (out_at out num_rows num_cols p r j) = Fin 0)"
proof -
  define row where "row d = mem s (proj_at proj num_rows orig_num_detectors p r d)" for d
  from kernel_sample_value [OF assms(1,2,5-10)] obtain s'
    where s': "interpolation_loop proj normalized_angles out num_proj num_rows
        orig_num_detectors num_cols s = Inr s'"
      "mem s' (out_at out num_rows num_cols p r j) =
        spec_sample row (sint orig_num_detectors) (normalized_angles ! nat j)"
    unfolding row_def by blast
  have x: "normalized_angles ! nat j = Fin (of_int j)"
    using assms(4,9,10) by simp
  have "spec_sample row (sint orig_num_detectors) (Fin (of_int j)) = row j \<or>
      row j = NZero \<and> spec_sample row (sint orig_num_detectors) (Fin (of_int j)) = Fin 0"
    using assms(3,9,10,11) by (intro spec_sample_identity) (simp_all add: row_def)
  with s' show ?thesis
    by (auto simp: x row_def)
qed

theorem identity_mapping_witness:
  "data_model \<lparr>base = 0, len = 2\<rparr> [Fin 0, Fin 1] \<lparr>base = 2, len = 2\<rparr> 1 1 2 2 \<and>
   int_sized [Fin 0, Fin 1] 1 1 2 2 \<and>
   sint (2 :: cint) = sint (2 :: cint) \<and>
   [Fin 0, Fin 1] ! nat 0 = Fin (of_int 0) \<and> [Fin 0, Fin 1] ! nat 1 = Fin (of_int 1) \<and>
   is_finite (Fin (5 / 2)) \<and> representable binary32 (Fin (5 / 2)) \<and>
   is_finite (Fin 3) \<and> representable binary32 (Fin 3) \<and>
   (\<exists>s'. interpolation_loop \<lparr>base = 0, len = 2\<rparr> [Fin 0, Fin 1] \<lparr>base = 2, len = 2\<rparr> 1 1 2 2
      (memory [Fin (5 / 2), Fin 3]) = Inr s' \<and> mem s' 2 = Fin (5 / 2))"
proof -
  have r3: "fp_round binary32 3 = Fin 3"
    using fp_round_dyadic [of 3 binary32 0] by (simp add: binary32_def)
  have all: "(\<forall>d::int. 0 \<le> d \<and> d < 2 \<longrightarrow> P d) \<longleftrightarrow> P 0 \<and> P 1" for P
  proof -
    have "0 \<le> d \<and> d < 2 \<longleftrightarrow> d = 0 \<or> d = 1" for d :: int
      by auto
    then show ?thesis
      by auto
  qed
  show ?thesis
    using identity_mapping [of "\<lparr>base = 0, len = 2\<rparr>" "[Fin 0, Fin 1]" "\<lparr>base = 2, len = 2\<rparr>"
      1 1 2 2 0 0 0 "memory [Fin (5 / 2), Fin 3]"]
    by (simp add: data_model_def int_sized_def separate_def convertible_def out_at_def proj_at_def
      memory_def all example_roundings r3)
qed

theorem identity_mapping_counterexample:
  "data_model \<lparr>base = 0, len = 2\<rparr> [Fin 0, Fin 1] \<lparr>base = 2, len = 2\<rparr> 1 1 2 2 \<and>
   cell_after 2 (interpolation_loop \<lparr>base = 0, len = 2\<rparr> [Fin 0, Fin 1] \<lparr>base = 2, len = 2\<rparr> 1 1 2 2
     (memory [Fin 1, PInf])) = Inr NaN \<and>
   cell_after 2 (interpolation_loop \<lparr>base = 0, len = 2\<rparr> [Fin 0, Fin 1] \<lparr>base = 2, len = 2\<rparr> 1 1 2 2
     (memory [NZero, Fin 1])) = Inr (Fin 0)"
  by (simp add: data_model_def separate_def interpolation_loop_def run_simps cell_after_def
    int_to_double_exact fp_sub_def fp_mul_def example_roundings)

subsection \<open>The midpoint\<close>

lemma fp_round_val:
  "q \<noteq> 0 \<Longrightarrow> is_finite (fp_round fmt q) \<Longrightarrow>
   fp_val (fp_round fmt q) = of_int (rint_even (q / 2 powi quantum fmt q)) * 2 powi quantum fmt q"
  by (auto simp: fp_round_def Let_def split: if_splits)

lemma fp_round_rel_error:
  assumes q: "q \<noteq> 0" and normal: "emin fmt \<le> ilog2 q" and fin: "is_finite (fp_round fmt q)"
  shows "\<bar>fp_val (fp_round fmt q) - q\<bar> \<le> \<bar>q\<bar> / 2 ^ prec fmt"
proof -
  define u :: rat where "u = 2 powi quantum fmt q"
  define n where "n = rint_even (q / u)"
  define r where "r = fp_val (fp_round fmt q)"
  have u: "0 < u"
    by (simp add: u_def)
  have rn: "r = of_int n * u"
    using fp_round_val [OF q fin] by (simp add: n_def u_def r_def)
  have "r - q = (of_int n - q / u) * u"
    using u by (simp add: rn field_simps)
  then have "\<bar>r - q\<bar> = \<bar>of_int n - q / u\<bar> * u"
    using u by (simp add: abs_mult)
  also have "\<dots> \<le> 1 / 2 * u"
    using rint_even_error [of "q / u"] u unfolding n_def by (intro mult_right_mono) simp_all
  also have "quantum fmt q = ilog2 q + 1 - int (prec fmt)"
    using normal by (simp add: quantum_def)
  then have "u = 2 powi (ilog2 q + 1) / 2 ^ prec fmt"
    by (simp add: u_def power_int_diff)
  then have "1 / 2 * u = 2 powi ilog2 q / 2 ^ prec fmt"
    by (simp add: power_int_add)
  also have "\<dots> \<le> \<bar>q\<bar> / 2 ^ prec fmt"
    using ilog2_bounds(1) [OF q] by (intro divide_right_mono) simp_all
  finally show ?thesis
    by (simp add: r_def)
qed

lemma fp_round_lower:
  assumes q: "q \<noteq> 0" and B: "B = of_int m * 2 powi k" and k: "quantum fmt q \<le> k"
    and le: "B \<le> \<bar>q\<bar>" and fin: "is_finite (fp_round fmt q)"
  shows "B \<le> \<bar>fp_val (fp_round fmt q)\<bar>"
proof -
  define u :: rat where "u = 2 powi quantum fmt q"
  define M where "M = m * 2 ^ nat (k - quantum fmt q)"
  define n where "n = rint_even (q / u)"
  define r where "r = fp_val (fp_round fmt q)"
  have u: "0 < u"
    by (simp add: u_def)
  have rn: "r = of_int n * u"
    using fp_round_val [OF q fin] by (simp add: n_def u_def r_def)
  have "(2::rat) powi k = u * 2 powi (k - quantum fmt q)"
    by (simp add: u_def flip: power_int_add)
  also have "2 powi (k - quantum fmt q) = (2::rat) ^ nat (k - quantum fmt q)"
    using k by (simp add: power_int_nonneg_exp)
  finally have BM: "B = of_int M * u"
    by (simp add: B M_def)
  show ?thesis
  proof (cases "0 \<le> q")
    case True
    with le have "of_int M \<le> q / u"
      using u by (simp add: BM field_simps)
    then have "M \<le> n"
      unfolding n_def by (rule rint_even_ge)
    then have "rat_of_int M \<le> of_int n"
      by (simp only: of_int_le_iff)
    then have "rat_of_int M * u \<le> of_int n * u"
      using u by (intro mult_right_mono) simp_all
    then have "B \<le> r"
      by (simp add: BM rn)
    then show ?thesis
      by (simp add: r_def)
  next
    case False
    with le have "q / u \<le> of_int (- M)"
      using u by (simp add: BM field_simps)
    then have "n \<le> - M"
      unfolding n_def by (rule rint_even_le)
    then have "rat_of_int n \<le> of_int (- M)"
      by (simp only: of_int_le_iff)
    then have "rat_of_int n * u \<le> of_int (- M) * u"
      using u by (intro mult_right_mono) simp_all
    then have "r \<le> - B"
      by (simp add: BM rn)
    then show ?thesis
      by (simp add: r_def)
  qed
qed

lemma float_magnitude:
  assumes "fp_round binary32 q = Fin q"
  shows "\<bar>q\<bar> \<le> (2 ^ 24 - 1) * 2 powi 104"
proof (cases "q = 0")
  case True
  then show ?thesis by simp
next
  case False
  define k where "k = quantum binary32 q"
  define n where "n = rint_even (q / 2 powi k)"
  from fp_round_form [OF False assms] have form: "q = of_int n * 2 powi k"
    and fin: "\<bar>q\<bar> < 2 powi 128"
    by (simp_all add: n_def k_def binary32_def)
  show ?thesis
  proof (cases "ilog2 q < 127")
    case True
    then have "ilog2 q + 1 \<le> 127"
      by simp
    then have "(2::rat) powi (ilog2 q + 1) \<le> 2 powi 127"
      by (intro power_int_increasing) simp_all
    with ilog2_bounds(2) [OF False] have "\<bar>q\<bar> < 2 powi 127"
      by simp
    then show ?thesis
      by simp
  next
    case False
    moreover have "ilog2 q < 128"
      using \<open>q \<noteq> 0\<close> fin by (rule ilog2_less)
    ultimately have k: "k = 104"
      by (simp add: k_def quantum_def binary32_def)
    have "\<bar>rat_of_int n\<bar> * 2 powi 104 < 2 ^ 24 * 2 powi 104"
      using fin by (simp add: form k abs_mult)
    then have "\<bar>rat_of_int n\<bar> < of_int (2 ^ 24)"
      by simp
    then have "\<bar>n\<bar> < 2 ^ 24"
      by (simp only: of_int_less_iff flip: of_int_abs)
    then have "\<bar>n\<bar> \<le> 2 ^ 24 - 1"
      by simp
    then have "\<bar>rat_of_int n\<bar> \<le> of_int (2 ^ 24 - 1)"
      by (simp only: of_int_le_iff flip: of_int_abs)
    then have "\<bar>rat_of_int n\<bar> * 2 powi 104 \<le> (2 ^ 24 - 1) * 2 powi 104"
      by (intro mult_right_mono) simp_all
    then show ?thesis
      by (simp add: form k abs_mult)
  qed
qed

lemma half_exact:
  assumes rep: "fp_round binary32 q = Fin q" and q: "q \<noteq> 0"
  shows "fp_round binary64 (q / 2) = Fin (q / 2)"
proof -
  define k where "k = quantum binary32 q"
  define n where "n = rint_even (q / 2 powi k)"
  from fp_round_form [OF q rep] have form: "q = of_int n * 2 powi k"
    and fin: "\<bar>q\<bar> < 2 powi 128"
    by (simp_all add: n_def k_def binary32_def)
  have "q / 2 = of_int n * 2 powi (k - 1)"
    by (simp add: form power_int_diff)
  moreover have "q / 2 \<noteq> 0"
    using q by simp
  moreover have "ilog2 (q / 2) \<le> ilog2 q"
    using q by (intro ilog2_mono) simp_all
  then have "quantum binary64 (q / 2) \<le> k - 1"
    by (simp add: quantum_def k_def binary32_def binary64_def max_def)
  moreover have "\<bar>q / 2\<bar> < 2 powi (emax binary64 + 1)"
  proof -
    have "\<bar>q / 2\<bar> \<le> \<bar>q\<bar>"
      by simp
    also note fin
    also have "(2::rat) powi 128 \<le> 2 powi (emax binary64 + 1)"
      by (intro power_int_increasing) (simp_all add: binary64_def)
    finally show ?thesis .
  qed
  ultimately show ?thesis
    by (intro fp_round_exact [where n = n and k = "k - 1"])
qed


lemma fp_mul_half:
  assumes "is_finite v" "representable binary32 v"
  shows "is_finite (fp_mul binary64 (Fin (1 / 2)) v)"
    and "fp_val (fp_mul binary64 (Fin (1 / 2)) v) = fp_val v / 2"
  using assms by (cases v; auto simp: fp_mul_def half_exact)+

lemma blend_midpoint:
  assumes v0: "is_finite v0" "representable binary32 v0"
    and v1: "is_finite v1" "representable binary32 v1"
  defines "m \<equiv> (fp_val v0 + fp_val v1) / 2"
  assumes normal: "1 / 2 ^ 126 \<le> \<bar>m\<bar>"
  defines "b \<equiv> fp_convert binary32
      (fp_add binary64
        (fp_mul binary64 (Fin (1 / 2)) (fp_convert binary64 v0))
        (fp_mul binary64 (Fin (1 / 2)) (fp_convert binary64 v1)))"
  shows "is_finite b" and "\<bar>fp_val b - m\<bar> \<le> 1 / 10 ^ 6 * \<bar>m\<bar>"
proof -
  define F :: rat where "F = (2 ^ 24 - 1) * 2 powi 104"
  define y where "y = fp_round binary64 m"
  define r1 where "r1 = fp_val y"
  have m0: "m \<noteq> 0"
    using normal by auto
  have mag: "\<bar>fp_val v\<bar> \<le> F" if "is_finite v" "representable binary32 v" for v
    using that float_magnitude [of "fp_val v"] by (cases v) (simp_all add: F_def)
  have mF: "\<bar>m\<bar> \<le> F"
    using mag [OF v0] mag [OF v1] by (simp add: m_def)
  have F128: "F < 2 powi 128"
    by (simp add: F_def)
  have "(2::rat) powi (- 126) \<le> \<bar>m\<bar>"
    using normal by (simp add: power_int_minus_divide)
  then have e: "- 126 \<le> ilog2 m"
    using m0 by (intro ilog2_ge)
  have "\<bar>m\<bar> < 2 powi 128"
    using mF F128 by simp
  then have e128: "ilog2 m < 128"
    using m0 by (intro ilog2_less)
  have sum: "fp_add binary64
        (fp_mul binary64 (Fin (1 / 2)) (fp_convert binary64 v0))
        (fp_mul binary64 (Fin (1 / 2)) (fp_convert binary64 v1)) = y"
    using v0 v1 m0
    by (simp add: fp_convert_float fp_add_finite fp_mul_half y_def m_def add_divide_distrib)
  have "is_finite y \<and> \<bar>fp_val y\<bar> \<le> F
      \<and> (0 \<le> m \<longrightarrow> 0 \<le> fp_val y) \<and> (m \<le> 0 \<longrightarrow> fp_val y \<le> 0)"
    unfolding y_def using m0 mF e128 F128
    by (intro fp_round_range [where m = "2 ^ 24 - 1" and k = 104])
      (simp_all add: F_def quantum_def binary64_def)
  then have yfin: "is_finite y" and r1F: "\<bar>r1\<bar> \<le> F"
    by (simp_all add: r1_def)
  have err1: "\<bar>r1 - m\<bar> \<le> \<bar>m\<bar> / 2 ^ 53"
    using fp_round_rel_error [of m binary64] m0 e yfin by (simp add: r1_def y_def binary64_def)
  have "2 powi ilog2 m \<le> \<bar>r1\<bar>"
    unfolding r1_def y_def using m0 e yfin ilog2_bounds(1) [OF m0]
    by (intro fp_round_lower [where m = 1 and k = "ilog2 m"])
      (simp_all add: quantum_def binary64_def y_def)
  moreover have "(2::rat) powi (- 126) \<le> 2 powi ilog2 m"
    using e by (intro power_int_increasing) simp_all
  ultimately have low: "2 powi (- 126) \<le> \<bar>r1\<bar>"
    by simp
  have "0 < (2::rat) powi (- 126)"
    by simp
  with low have r10: "r1 \<noteq> 0"
    by auto
  then have y: "y = Fin r1"
    using yfin by (cases y) (simp_all add: r1_def)
  have e1: "- 126 \<le> ilog2 r1"
    using r10 low by (intro ilog2_ge)
  have "\<bar>r1\<bar> < 2 powi 128"
    using r1F F128 by simp
  then have e1128: "ilog2 r1 < 128"
    using r10 by (intro ilog2_less)
  have b: "b = fp_round binary32 r1"
    unfolding b_def sum y by simp
  have "is_finite (fp_round binary32 r1) \<and> \<bar>fp_val (fp_round binary32 r1)\<bar> \<le> F
      \<and> (0 \<le> r1 \<longrightarrow> 0 \<le> fp_val (fp_round binary32 r1))
      \<and> (r1 \<le> 0 \<longrightarrow> fp_val (fp_round binary32 r1) \<le> 0)"
    using r10 r1F e1128 F128
    by (intro fp_round_range [where m = "2 ^ 24 - 1" and k = 104])
      (simp_all add: F_def quantum_def binary32_def)
  then show bfin: "is_finite b"
    by (simp add: b)
  have err2: "\<bar>fp_val b - r1\<bar> \<le> \<bar>r1\<bar> / 2 ^ 24"
    using fp_round_rel_error [of r1 binary32] r10 e1 bfin by (simp add: b binary32_def)
  have "\<bar>r1\<bar> \<le> \<bar>m\<bar> + \<bar>m\<bar> / 2 ^ 53"
    using err1 by linarith
  then have "\<bar>r1\<bar> / 2 ^ 24 \<le> (\<bar>m\<bar> + \<bar>m\<bar> / 2 ^ 53) / 2 ^ 24"
    by (intro divide_right_mono) simp_all
  with err1 err2 have "\<bar>fp_val b - m\<bar> \<le> (\<bar>m\<bar> + \<bar>m\<bar> / 2 ^ 53) / 2 ^ 24 + \<bar>m\<bar> / 2 ^ 53"
    by linarith
  also have "\<dots> = \<bar>m\<bar> * ((1 + 1 / 2 ^ 53) / 2 ^ 24 + 1 / 2 ^ 53)"
    by (simp add: algebra_simps)
  also have "\<dots> \<le> \<bar>m\<bar> * (1 / 10 ^ 6)"
    by (intro mult_left_mono) simp_all
  finally show "\<bar>fp_val b - m\<bar> \<le> 1 / 10 ^ 6 * \<bar>m\<bar>"
    by simp
qed


lemma floor_add_half: "\<lfloor>rat_of_int k + 1 / 2\<rfloor> = k"
  by (rule floor_unique) simp_all

lemma fp_sub_half:
  "fp_sub binary64 (Fin (of_int k + 1 / 2)) (Fin (of_int k)) = Fin (1 / 2)"
  "fp_sub binary64 (Fin 1) (Fin (1 / 2)) = Fin (1 / 2)"
  by (simp_all add: fp_sub_def fp_add_finite example_roundings del: fp_neg.simps)

lemma spec_sample_midpoint:
  assumes idx: "0 \<le> idx" "idx < n - 1"
    and v0: "is_finite (row idx)" "representable binary32 (row idx)"
    and v1: "is_finite (row (idx + 1))" "representable binary32 (row (idx + 1))"
    and normal: "1 / 2 ^ 126 \<le> \<bar>(fp_val (row idx) + fp_val (row (idx + 1))) / 2\<bar>"
  shows "is_finite (spec_sample row n (Fin (of_int idx + 1 / 2)))"
    and "\<bar>fp_val (spec_sample row n (Fin (of_int idx + 1 / 2)))
          - (fp_val (row idx) + fp_val (row (idx + 1))) / 2\<bar>
        \<le> 1 / 10 ^ 6 * \<bar>(fp_val (row idx) + fp_val (row (idx + 1))) / 2\<bar>"
proof -
  have "spec_sample row n (Fin (of_int idx + 1 / 2)) =
      fp_convert binary32
        (fp_add binary64
          (fp_mul binary64 (Fin (1 / 2)) (fp_convert binary64 (row idx)))
          (fp_mul binary64 (Fin (1 / 2)) (fp_convert binary64 (row (idx + 1)))))"
    using idx by (simp add: spec_sample_def Let_def floor_add_half fp_sub_half)
  with blend_midpoint [OF v0 v1 normal]
  show "is_finite (spec_sample row n (Fin (of_int idx + 1 / 2)))"
    and "\<bar>fp_val (spec_sample row n (Fin (of_int idx + 1 / 2)))
          - (fp_val (row idx) + fp_val (row (idx + 1))) / 2\<bar>
        \<le> 1 / 10 ^ 6 * \<bar>(fp_val (row idx) + fp_val (row (idx + 1))) / 2\<bar>"
    by simp_all
qed

text \<open>
  C7 (amended). On a call within the contract, for every \<open>j\<close> with
  \<open>normalized_angles[j] = idx + 0.5\<close> for an integer \<open>0 \<le> idx < orig_num_detectors - 1\<close>, and
  every \<open>p\<close>, \<open>r\<close> such that \<^verbatim>\<open>proj[p][r][idx]\<close> and \<^verbatim>\<open>proj[p][r][idx + 1]\<close> are finite
  \<^verbatim>\<open>float\<close> values whose mean is in magnitude at least \<open>2^-126\<close>, the smallest normal
  \<^verbatim>\<open>float\<close>: \<^verbatim>\<open>out[p][r][j]\<close> is finite and equals the mean
  \<open>(proj[p][r][idx] + proj[p][r][idx + 1]) / 2\<close> within a relative error of \<open>10^-6\<close>.
\<close>

theorem midpoint_tolerance:
  assumes "data_model proj normalized_angles out num_proj num_rows orig_num_detectors num_cols"
    and "int_sized normalized_angles num_proj num_rows orig_num_detectors num_cols"
    and "0 \<le> p" "p < sint num_proj" "0 \<le> r" "r < sint num_rows" "0 \<le> j" "j < sint num_cols"
    and "0 \<le> idx" "idx < sint orig_num_detectors - 1"
    and "normalized_angles ! nat j = Fin (of_int idx + 1 / 2)"
    and "is_finite (mem s (proj_at proj num_rows orig_num_detectors p r idx))"
      "representable binary32 (mem s (proj_at proj num_rows orig_num_detectors p r idx))"
    and "is_finite (mem s (proj_at proj num_rows orig_num_detectors p r (idx + 1)))"
      "representable binary32 (mem s (proj_at proj num_rows orig_num_detectors p r (idx + 1)))"
    and "1 / 2 ^ 126 \<le>
      \<bar>(fp_val (mem s (proj_at proj num_rows orig_num_detectors p r idx)) +
        fp_val (mem s (proj_at proj num_rows orig_num_detectors p r (idx + 1)))) / 2\<bar>"
  shows "\<exists>s'. interpolation_loop proj normalized_angles out num_proj num_rows
             orig_num_detectors num_cols s = Inr s' \<and>
           is_finite (mem s' (out_at out num_rows num_cols p r j)) \<and>
           \<bar>fp_val (mem s' (out_at out num_rows num_cols p r j)) -
              (fp_val (mem s (proj_at proj num_rows orig_num_detectors p r idx)) +
               fp_val (mem s (proj_at proj num_rows orig_num_detectors p r (idx + 1)))) / 2\<bar>
           \<le> 1 / 10 ^ 6 *
             \<bar>(fp_val (mem s (proj_at proj num_rows orig_num_detectors p r idx)) +
               fp_val (mem s (proj_at proj num_rows orig_num_detectors p r (idx + 1)))) / 2\<bar>"
proof -
  define row where "row d = mem s (proj_at proj num_rows orig_num_detectors p r d)" for d
  from kernel_sample_value [OF assms(1-8)] obtain s'
    where s': "interpolation_loop proj normalized_angles out num_proj num_rows
        orig_num_detectors num_cols s = Inr s'"
      "mem s' (out_at out num_rows num_cols p r j) =
        spec_sample row (sint orig_num_detectors) (Fin (of_int idx + 1 / 2))"
    unfolding row_def assms(11) by blast
  from spec_sample_midpoint [of idx "sint orig_num_detectors" row]
    assms(9,10,12-16) [folded row_def] s' show ?thesis
    unfolding row_def [symmetric] by simp
qed

theorem midpoint_tolerance_witness:
  "data_model \<lparr>base = 0, len = 4\<rparr> [Fin (- (1 / 2)), Fin (3 / 2), Fin (7 / 2)] \<lparr>base = 4, len = 3\<rparr> 1 1 4 3 \<and>
   int_sized [Fin (- (1 / 2)), Fin (3 / 2), Fin (7 / 2)] 1 1 4 3 \<and>
   [Fin (- (1 / 2)), Fin (3 / 2), Fin (7 / 2)] ! nat 1 = Fin (of_int 1 + 1 / 2) \<and>
   is_finite (Fin 2) \<and> representable binary32 (Fin 2) \<and>
   is_finite (Fin 3) \<and> representable binary32 (Fin 3) \<and>
   1 / 2 ^ 126 \<le> \<bar>(fp_val (Fin 2) + fp_val (Fin 3)) / 2\<bar> \<and>
   (\<exists>s'. interpolation_loop \<lparr>base = 0, len = 4\<rparr> [Fin (- (1 / 2)), Fin (3 / 2), Fin (7 / 2)]
      \<lparr>base = 4, len = 3\<rparr> 1 1 4 3 (memory [Fin 1, Fin 2, Fin 3, Fin 4]) = Inr s' \<and>
      \<bar>fp_val (mem s' 5) - 5 / 2\<bar> \<le> 1 / 10 ^ 6 * (5 / 2))"
proof -
  have r: "fp_round binary32 2 = Fin 2" "fp_round binary32 3 = Fin 3"
    using fp_round_dyadic [of 2 binary32 0] fp_round_dyadic [of 3 binary32 0]
    by (simp_all add: binary32_def)
  show ?thesis
    using midpoint_tolerance [of "\<lparr>base = 0, len = 4\<rparr>" "[Fin (- (1 / 2)), Fin (3 / 2), Fin (7 / 2)]"
      "\<lparr>base = 4, len = 3\<rparr>" 1 1 4 3 0 0 1 1 "memory [Fin 1, Fin 2, Fin 3, Fin 4]"]
    by (auto simp: data_model_def int_sized_def separate_def convertible_def out_at_def proj_at_def
      memory_def r)
qed

theorem midpoint_tolerance_counterexample:
  "data_model \<lparr>base = 0, len = 2\<rparr> [Fin (0 + 1 / 2)] \<lparr>base = 2, len = 1\<rparr> 1 1 2 1 \<and>
   representable binary32 (Fin (1 / 2 ^ 149)) \<and> representable binary32 (Fin 0) \<and>
   cell_after 2 (interpolation_loop \<lparr>base = 0, len = 2\<rparr> [Fin (0 + 1 / 2)] \<lparr>base = 2, len = 1\<rparr> 1 1 2 1
     (memory [Fin (1 / 2 ^ 149), Fin 0])) = Inr (Fin 0) \<and>
   \<not> \<bar>fp_val (Fin 0) - (fp_val (Fin (1 / 2 ^ 149)) + fp_val (Fin 0)) / 2\<bar>
     \<le> 1 / 10 ^ 6 * \<bar>(fp_val (Fin (1 / 2 ^ 149)) + fp_val (Fin 0)) / 2\<bar>"
proof -
  have "fp_round binary32 (1 / 2 ^ 149) = Fin (1 / 2 ^ 149)"
    using fp_round_dyadic [of 1 binary32 "- 149"] by (simp add: binary32_def)
  moreover have "fp_round binary64 (1 / 2 ^ 149) = Fin (1 / 2 ^ 149)"
    using fp_round_dyadic [of 1 binary64 "- 149"] by (simp add: binary64_def)
  moreover have "fp_round binary64 (1 / 2 ^ 150) = Fin (1 / 2 ^ 150)"
    using fp_round_dyadic [of 1 binary64 "- 150"] by (simp add: binary64_def)
  moreover have "fp_round binary32 (1 / 2 ^ 150) = Fin 0"
    by (simp add: fp_round_def quantum_def ilog2_eqI [of "- 150"] rint_even_def Let_def binary32_def)
  ultimately show ?thesis
    by (simp add: data_model_def separate_def interpolation_loop_def run_simps cell_after_def
      int_to_double_exact fp_sub_def fp_mul_def example_roundings)
qed

subsection \<open>What a call writes and what it leaves alone\<close>

text \<open>
  Narrowing to \<^verbatim>\<open>float\<close> does not overflow: the blend of two finite \<^verbatim>\<open>float\<close> values with
  weights \<open>fl(1 - t)\<close> and \<open>t\<close>, \<open>0 \<le> t \<le> 1\<close>, exceeds the largest \<^verbatim>\<open>float\<close> by less than
  half a unit in its last place.
\<close>

lemma rint_even_below: "y < of_int n + 1 / 2 \<Longrightarrow> rint_even y \<le> n"
proof -
  assume "y < of_int n + 1 / 2"
  moreover have "of_int (rint_even y) - y \<le> 1 / 2"
    using rint_even_error [of y] by linarith
  ultimately have "rat_of_int (rint_even y) < of_int (n + 1)"
    by simp
  then have "rint_even y < n + 1"
    by (simp only: of_int_less_iff)
  then show ?thesis
    by simp
qed

lemma rint_even_above: "of_int n - 1 / 2 < y \<Longrightarrow> n \<le> rint_even y"
proof -
  assume "of_int n - 1 / 2 < y"
  moreover have "y - of_int (rint_even y) \<le> 1 / 2"
    using rint_even_error [of y] by linarith
  ultimately have "rat_of_int (n - 1) < of_int (rint_even y)"
    by simp
  then have "n - 1 < rint_even y"
    by (simp only: of_int_less_iff)
  then show ?thesis
    by simp
qed

lemma fp_round_near:
  assumes lt: "\<bar>q\<bar> < 2 powi (e + 1)" and e: "emin fmt \<le> e" "e < emax fmt"
  shows "is_finite (fp_round fmt q) \<and> \<bar>fp_val (fp_round fmt q) - q\<bar> \<le> 2 powi (e - int (prec fmt))"
proof (cases "q = 0")
  case True
  then show ?thesis
    by simp
next
  case False
  define u :: rat where "u = 2 powi quantum fmt q"
  define n where "n = rint_even (q / u)"
  from False lt have "ilog2 q < e + 1"
    by (rule ilog2_less)
  with e have k: "quantum fmt q \<le> e + 1 - int (prec fmt)"
    by (simp add: quantum_def)
  have "(2::rat) powi (e + 1) < 2 powi (emax fmt + 1)"
    using e by (intro power_int_strict_increasing) simp_all
  with False lt k have fin: "is_finite (fp_round fmt q)"
    using fp_round_range [of q "2 powi (e + 1)" 1 "e + 1" fmt] by simp
  have u: "0 < u"
    by (simp add: u_def)
  have rn: "fp_val (fp_round fmt q) = of_int n * u"
    using fp_round_val [OF False fin] by (simp add: n_def u_def)
  have "of_int n * u - q = (of_int n - q / u) * u"
    using u by (simp add: field_simps)
  then have "\<bar>of_int n * u - q\<bar> = \<bar>of_int n - q / u\<bar> * u"
    using u by (simp add: abs_mult)
  also have "\<dots> \<le> 1 / 2 * u"
    using rint_even_error [of "q / u"] u unfolding n_def by (intro mult_right_mono) simp_all
  also have "\<dots> = 2 powi (quantum fmt q - 1)"
    by (simp add: u_def power_int_diff)
  also have "\<dots> \<le> 2 powi (e - int (prec fmt))"
    using k by (intro power_int_increasing) simp_all
  finally show ?thesis
    using fin by (simp add: rn)
qed

lemma narrow_finite:
  assumes le: "\<bar>q\<bar> \<le> (2 ^ 24 - 1) * 2 powi 104 + 2 powi 100"
  shows "is_finite (fp_round binary32 q)"
proof (cases "ilog2 q < 127 \<or> q = 0")
  case True
  then have "\<bar>q\<bar> < 2 powi (126 + 1)"
  proof
    assume "ilog2 q < 127"
    then have "ilog2 q + 1 \<le> 127"
      by simp
    then have "(2::rat) powi (ilog2 q + 1) \<le> 2 powi 127"
      by (intro power_int_increasing) simp_all
    moreover have "\<bar>q\<bar> < 2 powi (ilog2 q + 1) \<or> q = 0"
      using ilog2_bounds(2) [of q] by blast
    ultimately show ?thesis
      by auto
  qed simp
  then show ?thesis
    using fp_round_near [of q 126 binary32] by (simp add: binary32_def)
next
  case False
  then have q: "q \<noteq> 0" and lo: "127 \<le> ilog2 q"
    by simp_all
  define n where "n = rint_even (q / 2 powi 104)"
  have "\<bar>q\<bar> < 2 powi 128"
    using le by simp
  with q have "ilog2 q < 128"
    by (rule ilog2_less)
  with lo have k: "quantum binary32 q = 104"
    by (simp add: quantum_def binary32_def)
  have "- ((2 ^ 24 - 1) * 2 powi 104 + 2 powi 100) \<le> q" "q \<le> (2 ^ 24 - 1) * 2 powi 104 + 2 powi 100"
    using le by linarith+
  then have b: "of_int (- (2 ^ 24 - 1)) - 1 / 2 < q / 2 powi 104"
    "q / 2 powi 104 < of_int (2 ^ 24 - 1) + 1 / 2"
    by (simp_all add: field_simps)
  have "- (2 ^ 24 - 1) \<le> n"
    unfolding n_def using b(1) by (rule rint_even_above)
  moreover have "n \<le> 2 ^ 24 - 1"
    unfolding n_def using b(2) by (rule rint_even_below)
  ultimately have "\<bar>n\<bar> \<le> 2 ^ 24 - 1"
    by simp
  then have "\<bar>rat_of_int n\<bar> \<le> of_int (2 ^ 24 - 1)"
    by (simp only: of_int_le_iff flip: of_int_abs)
  then have "\<bar>rat_of_int n\<bar> * 2 powi 104 \<le> (2 ^ 24 - 1) * 2 powi 104"
    by (intro mult_right_mono) simp_all
  then have "\<bar>rat_of_int n * 2 powi 104\<bar> < 2 powi 128"
    by (simp add: abs_mult)
  then have "\<not> 2 powi (emax binary32 + 1) \<le> \<bar>rat_of_int n * 2 powi 104\<bar>"
    by (simp add: binary32_def)
  then show ?thesis
    unfolding fp_round_def Let_def k n_def [symmetric] using q by simp
qed

lemma fp_mul_finite:
  "is_finite a \<Longrightarrow> is_finite b \<Longrightarrow>
   fp_mul fmt a b =
     (if fp_val a * fp_val b = 0 then (if signbit a \<noteq> signbit b then NZero else Fin 0)
      else fp_round fmt (fp_val a * fp_val b))"
  by (cases a; cases b) (simp_all add: fp_mul_def Let_def)

lemma blend_finite:
  assumes v0: "is_finite v0" "representable binary32 v0"
    and v1: "is_finite v1" "representable binary32 v1"
    and t: "is_finite t" "0 \<le> fp_val t" "fp_val t \<le> 1"
  shows "is_finite (fp_convert binary32
      (fp_add binary64
        (fp_mul binary64 (fp_sub binary64 (Fin 1) t) (fp_convert binary64 v0))
        (fp_mul binary64 t (fp_convert binary64 v1))))"
proof -
  define F :: rat where "F = (2 ^ 24 - 1) * 2 powi 104"
  define u where "u = fp_sub binary64 (Fin 1) t"
  define a where "a = fp_mul binary64 u v0"
  define b where "b = fp_mul binary64 t v1"
  define y where "y = fp_add binary64 a b"
  define U where "U = 1 - fp_val t + 1 / 2 ^ 53"
  have mag: "\<bar>fp_val v\<bar> \<le> F" if "is_finite v" "representable binary32 v" for v
    using that float_magnitude [of "fp_val v"] by (cases v) (simp_all add: F_def)
  have near: "is_finite (fp_round binary64 q) \<and> \<bar>fp_val (fp_round binary64 q) - q\<bar> \<le> 2 ^ 74"
    if "\<bar>q\<bar> < 2 ^ 128" for q
    using that fp_round_near [of q 127 binary64] by (simp add: binary64_def)
  have u: "is_finite u \<and> \<bar>fp_val u\<bar> \<le> U"
  proof (cases "1 - fp_val t = 0")
    case True
    then show ?thesis
      using t by (simp add: u_def U_def fp_sub_def fp_add_finite del: fp_neg.simps)
  next
    case False
    have "\<bar>1 - fp_val t\<bar> < 2 powi (0 + 1)"
      using t by simp
    from fp_round_near [OF this, of binary64]
    have w: "is_finite (fp_round binary64 (1 - fp_val t))"
      and "\<bar>fp_val (fp_round binary64 (1 - fp_val t)) - (1 - fp_val t)\<bar> \<le> 1 / 2 ^ 53"
      by (simp_all add: binary64_def power_int_minus_divide)
    then have "\<bar>fp_val (fp_round binary64 (1 - fp_val t))\<bar> \<le> U"
      unfolding U_def using t by linarith
    moreover have "u = fp_round binary64 (1 - fp_val t)"
      using False t by (simp add: u_def fp_sub_def fp_add_finite del: fp_neg.simps)
    ultimately show ?thesis
      using w by simp
  qed
  have U: "0 \<le> U"
    using t by (simp add: U_def)
  have pa: "\<bar>fp_val u * fp_val v0\<bar> \<le> U * F"
    unfolding abs_mult using u mag [OF v0] by (intro mult_mono) (simp_all add: U)
  have pb: "\<bar>fp_val t * fp_val v1\<bar> \<le> fp_val t * F"
    unfolding abs_mult using t mag [OF v1] by (intro mult_mono) simp_all
  have UF: "U * F + fp_val t * F = (1 + 1 / 2 ^ 53) * F"
    by (simp add: U_def algebra_simps)
  have F0: "0 \<le> F"
    by (simp add: F_def)
  have "U * F \<le> U * F + fp_val t * F"
    using t F0 by simp
  with pa have "\<bar>fp_val u * fp_val v0\<bar> < 2 ^ 128"
    unfolding UF by (simp add: F_def)
  from near [OF this] have a: "is_finite a \<and> \<bar>fp_val a - fp_val u * fp_val v0\<bar> \<le> 2 ^ 74"
    using u v0 by (simp add: a_def fp_mul_finite)
  have "fp_val t * F \<le> U * F + fp_val t * F"
    using U F0 by simp
  with pb have "\<bar>fp_val t * fp_val v1\<bar> < 2 ^ 128"
    unfolding UF by (simp add: F_def)
  from near [OF this] have b: "is_finite b \<and> \<bar>fp_val b - fp_val t * fp_val v1\<bar> \<le> 2 ^ 74"
    using t v1 by (simp add: b_def fp_mul_finite)
  have "(2::rat) ^ 75 = 2 ^ 74 + 2 ^ 74"
    by simp
  moreover have "\<bar>fp_val a - fp_val u * fp_val v0\<bar> \<le> 2 ^ 74"
    "\<bar>fp_val b - fp_val t * fp_val v1\<bar> \<le> 2 ^ 74"
    using a b by simp_all
  ultimately have "\<bar>fp_val a + fp_val b\<bar> \<le> U * F + fp_val t * F + 2 ^ 75"
    using pa pb by linarith
  then have sum: "\<bar>fp_val a + fp_val b\<bar> \<le> F + 2 ^ 76"
    unfolding UF by (simp add: F_def)
  then have "\<bar>fp_val a + fp_val b\<bar> < 2 ^ 128"
    by (simp add: F_def)
  from near [OF this] have y: "is_finite y \<and> \<bar>fp_val y - (fp_val a + fp_val b)\<bar> \<le> 2 ^ 74"
    using a b by (simp add: y_def fp_add_finite)
  then have "\<bar>fp_val y\<bar> \<le> \<bar>fp_val a + fp_val b\<bar> + 2 ^ 74"
    by linarith
  with sum have "\<bar>fp_val y\<bar> \<le> F + 2 ^ 76 + 2 ^ 74"
    by linarith
  then have "\<bar>fp_val y\<bar> \<le> F + 2 powi 100"
    by simp
  then have "is_finite (fp_round binary32 (fp_val y))"
    unfolding F_def by (rule narrow_finite)
  with y have "is_finite (fp_convert binary32 y)"
    by (cases y) simp_all
  then show ?thesis
    using v0 v1 by (simp add: y_def a_def b_def u_def fp_convert_float)
qed

lemma spec_sample_finite:
  assumes n: "1 \<le> n" and x: "is_finite x"
    and row: "\<And>d. 0 \<le> d \<Longrightarrow> d < n \<Longrightarrow> is_finite (row d) \<and> representable binary32 (row d)"
  shows "is_finite (spec_sample row n x)"
proof -
  define idx where "idx = \<lfloor>fp_val x\<rfloor>"
  consider "idx < 0" | "0 \<le> idx" "n - 1 \<le> idx" | "0 \<le> idx" "idx < n - 1"
    by linarith
  then show ?thesis
  proof cases
    case 1
    then show ?thesis
      using row [of 0] n by (simp add: spec_sample_def Let_def idx_def)
  next
    case 2
    then show ?thesis
      using row [of "n - 1"] n by (simp add: spec_sample_def Let_def idx_def)
  next
    case 3
    then have "is_finite (row idx) \<and> representable binary32 (row idx)"
      "is_finite (row (idx + 1)) \<and> representable binary32 (row (idx + 1))"
      by (simp_all add: row)
    with 3 show ?thesis
      using fraction_closed(1-3) [OF x]
      by (simp add: spec_sample_def Let_def blend_finite flip: idx_def)
  qed
qed

text \<open>
  C9 (amended). On a call that meets the data model, with at least one detector column,
  volumes of at most \<open>2^31 - 1\<close> elements and every position finite with a floor in the
  range of \<^verbatim>\<open>int\<close>, the kernel returns, and:
  \<^item> the stores of the call are the addresses of the output extent, in order, each once:
    every element \<^verbatim>\<open>out[p][r][j]\<close> in range has been written exactly once, and nothing
    else has been written;
  \<^item> after the call \<^verbatim>\<open>out[p][r][j]\<close> holds the value of the per-sample algorithm for the
    row \<^verbatim>\<open>proj[p][r]\<close> and the position \<open>normalized_angles[j]\<close>, whatever it held before;
  \<^item> that value is a finite number when the elements of the row \<^verbatim>\<open>proj[p][r]\<close> are finite
    \<^verbatim>\<open>float\<close> values, so that no NaN put in \<^verbatim>\<open>out\<close> before the call remains;
  \<^item> every cell outside the output extent is unchanged, the cells of \<^verbatim>\<open>proj\<close> among
    them. (The table of positions is a read-only array apart from the \<^verbatim>\<open>float\<close> memory:
    the kernel stores through \<^verbatim>\<open>out\<close> only.)

  The element need not differ from its value before the call: the kernel stores a NaN
  when the sample it copies is a NaN, or when the blend is one (\<open>0 * inf\<close>), and then
  a NaN that was in \<^verbatim>\<open>out\<close> before the call is there after it. And with no detector column
  the call faults before it has written anything.
\<close>

theorem kernel_frame:
  assumes "data_model proj normalized_angles out num_proj num_rows orig_num_detectors num_cols"
    and "int_sized normalized_angles num_proj num_rows orig_num_detectors num_cols"
  shows "\<exists>s'. interpolation_loop proj normalized_angles out num_proj num_rows
             orig_num_detectors num_cols s = Inr s' \<and>
           stores s' = stores s @ out_extent out num_proj num_rows num_cols \<and>
           (\<forall>p r j. 0 \<le> p \<and> p < sint num_proj \<and> 0 \<le> r \<and> r < sint num_rows \<and>
              0 \<le> j \<and> j < sint num_cols \<longrightarrow>
              count_list (out_extent out num_proj num_rows num_cols)
                (out_at out num_rows num_cols p r j) = 1 \<and>
              mem s' (out_at out num_rows num_cols p r j) =
                spec_sample (\<lambda>d. mem s (proj_at proj num_rows orig_num_detectors p r d))
                  (sint orig_num_detectors) (normalized_angles ! nat j) \<and>
              ((\<forall>d. 0 \<le> d \<and> d < sint orig_num_detectors \<longrightarrow>
                  is_finite (mem s (proj_at proj num_rows orig_num_detectors p r d)) \<and>
                  representable binary32 (mem s (proj_at proj num_rows orig_num_detectors p r d))) \<longrightarrow>
               is_finite (mem s' (out_at out num_rows num_cols p r j)))) \<and>
           (\<forall>a. a \<notin> set (out_extent out num_proj num_rows num_cols) \<longrightarrow> mem s' a = mem s a) \<and>
           (\<forall>p r d. 0 \<le> p \<and> p < sint num_proj \<and> 0 \<le> r \<and> r < sint num_rows \<and>
              0 \<le> d \<and> d < sint orig_num_detectors \<longrightarrow>
              mem s' (proj_at proj num_rows orig_num_detectors p r d) =
              mem s (proj_at proj num_rows orig_num_detectors p r d))"
proof -
  note valid = contract_valid [OF assms]
  define s' where "s' = s\<lparr>mem := (\<lambda>a.
      if a \<in> set (out_extent out num_proj num_rows num_cols)
      then sample_at proj normalized_angles out orig_num_detectors num_cols (mem s) a
      else mem s a),
    stores := stores s @ out_extent out num_proj num_rows num_cols\<rparr>"
  have run: "interpolation_loop proj normalized_angles out num_proj num_rows
      orig_num_detectors num_cols s = Inr s'"
    unfolding s'_def by (rule interpolation_loop_result [OF valid])
  have log: "stores s' = stores s @ out_extent out num_proj num_rows num_cols"
    by (simp add: s'_def)
  have frame: "mem s' a = mem s a" if "a \<notin> set (out_extent out num_proj num_rows num_cols)" for a
    using that by (simp add: s'_def)
  have once: "count_list (out_extent out num_proj num_rows num_cols)
      (out_at out num_rows num_cols p r j) = 1"
    if "0 \<le> p" "p < sint num_proj" "0 \<le> r" "r < sint num_rows" "0 \<le> j" "j < sint num_cols"
    for p r j
    using out_extent_distinct out_at_in_extent [OF that] by (rule count_list_distinct)
  have val: "mem s' (out_at out num_rows num_cols p r j) =
      spec_sample (\<lambda>d. mem s (proj_at proj num_rows orig_num_detectors p r d))
        (sint orig_num_detectors) (normalized_angles ! nat j)"
    if "0 \<le> p" "p < sint num_proj" "0 \<le> r" "r < sint num_rows" "0 \<le> j" "j < sint num_cols"
    for p r j
    using kernel_sample_value [OF assms that, of s] run by simp
  have fin: "is_finite (mem s' (out_at out num_rows num_cols p r j))"
    if b: "0 \<le> p" "p < sint num_proj" "0 \<le> r" "r < sint num_rows" "0 \<le> j" "j < sint num_cols"
      and row: "\<forall>d. 0 \<le> d \<and> d < sint orig_num_detectors \<longrightarrow>
        is_finite (mem s (proj_at proj num_rows orig_num_detectors p r d)) \<and>
        representable binary32 (mem s (proj_at proj num_rows orig_num_detectors p r d))"
    for p r j
  proof -
    have "nat j < length normalized_angles"
      using assms(1) b by (simp add: data_model_def nat_less_iff)
    then have "normalized_angles ! nat j \<in> set normalized_angles"
      by (rule nth_mem)
    then have "convertible (normalized_angles ! nat j)"
      using assms(2) by (simp add: int_sized_def)
    then have x: "is_finite (normalized_angles ! nat j)"
      by (simp add: convertible_iff)
    have n: "1 \<le> sint orig_num_detectors"
      using assms(2) by (simp add: int_sized_def)
    show ?thesis
      unfolding val [OF b] using n x row by (intro spec_sample_finite) simp_all
  qed
  have input: "mem s' (proj_at proj num_rows orig_num_detectors p r d) =
      mem s (proj_at proj num_rows orig_num_detectors p r d)"
    if "0 \<le> p" "p < sint num_proj" "0 \<le> r" "r < sint num_rows" "0 \<le> d" "d < sint orig_num_detectors"
    for p r d
    using valid(2) that by (intro frame proj_at_not_in_extent)
  from run log once val fin frame input show ?thesis
    by blast
qed

theorem kernel_frame_witness:
  "data_model \<lparr>base = 0, len = 4\<rparr> [Fin (- (1 / 2)), Fin (3 / 2), Fin (7 / 2)] \<lparr>base = 4, len = 3\<rparr> 1 1 4 3 \<and>
   int_sized [Fin (- (1 / 2)), Fin (3 / 2), Fin (7 / 2)] 1 1 4 3 \<and>
   representable binary32 (Fin 1) \<and> representable binary32 (Fin 2) \<and>
   representable binary32 (Fin 3) \<and> representable binary32 (Fin 4) \<and>
   (\<exists>s'. interpolation_loop \<lparr>base = 0, len = 4\<rparr> [Fin (- (1 / 2)), Fin (3 / 2), Fin (7 / 2)]
      \<lparr>base = 4, len = 3\<rparr> 1 1 4 3 (memory [Fin 1, Fin 2, Fin 3, Fin 4, NaN, NaN, NaN, Fin 9]) = Inr s' \<and>
      stores s' = [4, 5, 6] \<and> count_list [4, 5, 6] (5 :: nat) = 1 \<and>
      mem s' 4 = Fin 1 \<and> mem s' 5 = Fin (5 / 2) \<and> mem s' 6 = Fin 4 \<and>
      is_finite (mem s' 4) \<and> is_finite (mem s' 5) \<and> is_finite (mem s' 6) \<and>
      mem s' 3 = Fin 4 \<and> mem s' 7 = Fin 9)"
proof -
  let ?proj = "\<lparr>base = 0, len = 4\<rparr>" and ?out = "\<lparr>base = 4, len = 3\<rparr>"
  let ?angles = "[Fin (- (1 / 2)), Fin (3 / 2), Fin (7 / 2)]"
  let ?s = "memory [Fin 1, Fin 2, Fin 3, Fin 4, NaN, NaN, NaN, Fin 9]"
  have dm: "data_model ?proj ?angles ?out 1 1 4 3" and sz: "int_sized ?angles 1 1 4 3"
    by (simp_all add: data_model_def int_sized_def separate_def convertible_def)
  have rep: "representable binary32 (Fin 1)" "representable binary32 (Fin 2)"
    "representable binary32 (Fin 3)" "representable binary32 (Fin 4)"
    using fp_round_dyadic [of 1 binary32 0] fp_round_dyadic [of 2 binary32 0]
      fp_round_dyadic [of 3 binary32 0] fp_round_dyadic [of 4 binary32 0]
    by (simp_all add: binary32_def)
  have upt: "[0..<3] = [0, 1, 2]"
    by (simp add: upt_rec)
  have ext: "out_extent ?out 1 1 3 = [4, 5, 6]"
    by (simp add: out_extent_def upt)
  from kernel_frame [OF dm sz, of ?s]
  obtain s' where run: "interpolation_loop ?proj ?angles ?out 1 1 4 3 ?s = Inr s'"
    and log: "stores s' = stores ?s @ out_extent ?out 1 1 3"
    and cells: "\<And>p r j. 0 \<le> p \<and> p < sint (1 :: cint) \<and> 0 \<le> r \<and> r < sint (1 :: cint) \<and>
        0 \<le> j \<and> j < sint (3 :: cint) \<Longrightarrow>
      mem s' (out_at ?out 1 3 p r j) =
        spec_sample (\<lambda>d. mem ?s (proj_at ?proj 1 4 p r d)) (sint (4 :: cint)) (?angles ! nat j)"
    and fin: "\<And>p r j. 0 \<le> p \<and> p < sint (1 :: cint) \<and> 0 \<le> r \<and> r < sint (1 :: cint) \<and>
        0 \<le> j \<and> j < sint (3 :: cint) \<Longrightarrow>
      \<forall>d. 0 \<le> d \<and> d < sint (4 :: cint) \<longrightarrow>
        is_finite (mem ?s (proj_at ?proj 1 4 p r d)) \<and>
        representable binary32 (mem ?s (proj_at ?proj 1 4 p r d)) \<Longrightarrow>
      is_finite (mem s' (out_at ?out 1 3 p r j))"
    and frame: "\<And>a. a \<notin> set (out_extent ?out 1 1 3) \<Longrightarrow> mem s' a = mem ?s a"
    by blast
  have row: "\<forall>d. 0 \<le> d \<and> d < sint (4 :: cint) \<longrightarrow>
      is_finite (mem ?s (proj_at ?proj 1 4 0 0 d)) \<and>
      representable binary32 (mem ?s (proj_at ?proj 1 4 0 0 d))"
  proof (intro allI impI)
    fix d :: int
    assume "0 \<le> d \<and> d < sint (4 :: cint)"
    then have "d = 0 \<or> d = 1 \<or> d = 2 \<or> d = 3"
      by auto
    then show "is_finite (mem ?s (proj_at ?proj 1 4 0 0 d)) \<and>
        representable binary32 (mem ?s (proj_at ?proj 1 4 0 0 d))"
      using rep by (auto simp: proj_at_def memory_def simp del: representable.simps)
  qed
  from fin [of 0 0 0, OF _ row] fin [of 0 0 1, OF _ row] fin [of 0 0 2, OF _ row]
  have "is_finite (mem s' 4)" "is_finite (mem s' 5)" "is_finite (mem s' 6)"
    by (simp_all add: out_at_def)
  moreover from cells [of 0 0 0] cells [of 0 0 1] cells [of 0 0 2] frame [of 3] frame [of 7]
  have "mem s' 4 = Fin 1" "mem s' 5 = Fin (5 / 2)" "mem s' 6 = Fin 4" "mem s' 3 = Fin 4" "mem s' 7 = Fin 9"
    by (simp_all add: ext out_at_def proj_at_def memory_def spec_sample_def Let_def
      fp_sub_def fp_mul_def example_roundings)
  moreover have "stores s' = [4, 5, 6]"
    using log by (simp add: ext memory_def)
  ultimately show ?thesis
    using run dm sz rep by (simp del: representable.simps)
qed

theorem kernel_frame_counterexample:
  "data_model \<lparr>base = 0, len = 2\<rparr> [Fin 0, Fin 1] \<lparr>base = 2, len = 2\<rparr> 1 1 2 2 \<and>
   int_sized [Fin 0, Fin 1] 1 1 2 2 \<and>
   mem (memory [Fin 1, PInf, NaN, NaN]) 2 = NaN \<and>
   cell_after 2 (interpolation_loop \<lparr>base = 0, len = 2\<rparr> [Fin 0, Fin 1] \<lparr>base = 2, len = 2\<rparr> 1 1 2 2
     (memory [Fin 1, PInf, NaN, NaN])) = Inr NaN \<and>
   data_model \<lparr>base = 0, len = 1\<rparr> [Fin (- 1)] \<lparr>base = 1, len = 1\<rparr> 1 1 1 1 \<and>
   int_sized [Fin (- 1)] 1 1 1 1 \<and>
   mem (memory [NaN, NaN]) 1 = NaN \<and>
   cell_after 1 (interpolation_loop \<lparr>base = 0, len = 1\<rparr> [Fin (- 1)] \<lparr>base = 1, len = 1\<rparr> 1 1 1 1
     (memory [NaN, NaN])) = Inr NaN \<and>
   data_model \<lparr>base = 0, len = 0\<rparr> [Fin 0] \<lparr>base = 0, len = 1\<rparr> 1 1 0 1 \<and>
   interpolation_loop \<lparr>base = 0, len = 0\<rparr> [Fin 0] \<lparr>base = 0, len = 1\<rparr> 1 1 0 1 (memory [NaN])
     = Inl OutOfBounds"
  by (simp add: data_model_def int_sized_def convertible_def separate_def interpolation_loop_def
    run_simps cell_after_def int_to_double_exact fp_sub_def fp_mul_def example_roundings)

end
